theory Spec2Isabelle
  imports Main "HOL-Library.Sublist"
begin

section \<open>Python strings\<close>

text \<open>
  A Python \<open>str\<close> is a sequence of Unicode code points, and \<open>len\<close> counts code points.
  A string is therefore modelled as the list of its code points; the Chinese literals of
  \<open>liuyao.py\<close> are written out as code points.
\<close>

type_synonym pystr = "nat list"

text \<open>\<open>s.startswith(p)\<close>\<close>

fun startswith :: "'a list \<Rightarrow> 'a list \<Rightarrow> bool" where
  "startswith s [] = True"
| "startswith [] (p # ps) = False"
| "startswith (c # cs) (p # ps) = (c = p \<and> startswith cs ps)"

text \<open>\<open>s.endswith(p)\<close>\<close>

definition endswith :: "'a list \<Rightarrow> 'a list \<Rightarrow> bool" where
  "endswith s p = startswith (rev s) (rev p)"

text \<open>\<open>p in s\<close> for strings: \<open>p\<close> occurs in \<open>s\<close> as a contiguous substring.\<close>

fun contains :: "'a list \<Rightarrow> 'a list \<Rightarrow> bool" where
  "contains [] p = (p = [])"
| "contains (c # cs) p = (startswith (c # cs) p \<or> contains cs p)"

text \<open>
  \<open>s.split(sep)\<close> for a non-empty separator: the pieces between the occurrences of
  \<open>sep\<close>, found from the left without overlap. Python raises \<open>ValueError\<close> for an
  empty separator; the only separator used by the program is the constant \<open>"]("\<close>, and
  for an empty separator this function returns the single piece \<open>s\<close>.
\<close>

function split_str :: "'a list \<Rightarrow> 'a list \<Rightarrow> 'a list list" where
  "split_str [] sep = [[]]"
| "split_str (c # cs) sep =
     (if sep \<noteq> [] \<and> startswith (c # cs) sep
      then [] # split_str (drop (length sep) (c # cs)) sep
      else (case split_str cs sep of
              [] \<Rightarrow> [[c]]
            | p # ps \<Rightarrow> (c # p) # ps))"
  by pat_completeness auto
termination
  by (relation "measure (\<lambda>(s, sep). length s)") auto

text \<open>
  \<open>s.replace(old, new)\<close> for a non-empty \<open>old\<close>: every occurrence of \<open>old\<close>, found
  from the left without overlap, is replaced by \<open>new\<close>. (For an empty \<open>old\<close> Python
  inserts \<open>new\<close> around every character; the program only replaces the constant
  \<open>"<br><br>"\<close>, and for an empty \<open>old\<close> this function returns \<open>s\<close>.)
\<close>

function replace_str :: "'a list \<Rightarrow> 'a list \<Rightarrow> 'a list \<Rightarrow> 'a list" where
  "replace_str [] old new = []"
| "replace_str (c # cs) old new =
     (if old \<noteq> [] \<and> startswith (c # cs) old
      then new @ replace_str (drop (length old) (c # cs)) old new
      else c # replace_str cs old new)"
  by pat_completeness auto
termination
  by (relation "measure (\<lambda>(s, old, new). length s)") auto

subsection \<open>The string constants of the program\<close>

definition IMG_OPEN :: pystr where \<comment> \<open>\<open>"!["\<close>\<close>
  "IMG_OPEN = [0x21, 0x5B]"

definition IMG_MID :: pystr where \<comment> \<open>\<open>"]("\<close>\<close>
  "IMG_MID = [0x5D, 0x28]"

definition IMG_CLOSE :: pystr where \<comment> \<open>\<open>")"\<close>\<close>
  "IMG_CLOSE = [0x29]"

definition LINE_BREAK :: pystr where \<comment> \<open>\<open>"<br><br>"\<close>\<close>
  "LINE_BREAK = [0x3C, 0x62, 0x72, 0x3E, 0x3C, 0x62, 0x72, 0x3E]"

definition NEWLINE :: pystr where \<comment> \<open>\<open>"\n"\<close>\<close>
  "NEWLINE = [0xA]"

definition SPACE :: pystr where \<comment> \<open>\<open>" "\<close>\<close>
  "SPACE = [0x20]"

definition ASSISTANT :: pystr where \<comment> \<open>\<open>'assistant'\<close>\<close>
  "ASSISTANT = [0x61, 0x73, 0x73, 0x69, 0x73, 0x74, 0x61, 0x6E, 0x74]"

definition STATUS_MARKER :: pystr where \<comment> \<open>the four-character "casting has begun" marker\<close>
  "STATUS_MARKER = [0x5F00, 0x59CB, 0x8D77, 0x5366]"

definition EXHAUSTED :: pystr where \<comment> \<open>the quota-exhausted notice (16 characters)\<close>
  "EXHAUSTED = [0x4ECA, 0x65E5, 0x7B97, 0x5366, 0x6B21, 0x6570, 0x5DF2, 0x7528, 0x5B8C,
     0xFF0C, 0x8BF7, 0x660E, 0x65E5, 0x518D, 0x6765, 0x3002]"

definition ASK_QUESTION :: pystr where \<comment> \<open>the prompt for the question (9 characters)\<close>
  "ASK_QUESTION = [0x8BF7, 0x8F93, 0x5165, 0x4F60, 0x6240, 0x6C42, 0x4E4B, 0x4E8B, 0xFF1A]"

definition SYSTEM_ERROR :: pystr where \<comment> \<open>the system-error reply (11 characters)\<close>
  "SYSTEM_ERROR = [0x7CFB, 0x7EDF, 0x9519, 0x8BEF, 0xFF0C, 0x8BF7, 0x7A0D, 0x540E, 0x518D,
     0x8BD5, 0x3002]"

definition GENERIC_FAILURE :: pystr where \<comment> \<open>the generic failure reply (20 characters)\<close>
  "GENERIC_FAILURE = [0x62B1, 0x6B49, 0xFF0C, 0x7B97, 0x5366, 0x7CFB, 0x7EDF, 0x6682, 0x65F6,
     0x9047, 0x5230, 0x95EE, 0x9898, 0xFF0C, 0x8BF7, 0x7A0D, 0x540E, 0x518D, 0x8BD5, 0x3002]"

definition NEED_START :: pystr where \<comment> \<open>the "send /start first" reply (19 characters)\<close>
  "NEED_START = [0x8BF7, 0x5148, 0x53D1, 0x9001, 0x20, 0x2F, 0x73, 0x74, 0x61, 0x72, 0x74,
     0x20, 0x5F00, 0x59CB, 0x7B97, 0x5366, 0x6D41, 0x7A0B, 0x3002]"

definition HEADER_PRE :: pystr where \<comment> \<open>the text before the question in the answer header\<close>
  "HEADER_PRE = [0x60A8, 0x6240, 0x95EE, 0x7684, 0x4E8B, 0xFF1A]"

definition HEADER_POST :: pystr where \<comment> \<open>the text after it: two newlines, five characters, newline\<close>
  "HEADER_POST = [0xA, 0xA, 0x5366, 0x8C61, 0x89E3, 0x6790, 0xFF1A, 0xA]"

definition BUFFER_SIZE :: nat where
  "BUFFER_SIZE = 30"

text \<open>The f-string of lines 136 and 138 without the buffer: header, question, header.\<close>

definition header :: "pystr \<Rightarrow> pystr" where
  "header question = HEADER_PRE @ question @ HEADER_POST"

section \<open>Data model\<close>

text \<open>
  Identifiers handed out by the backend (\<open>user['user_id']\<close>, \<open>project['project_id']\<close>)
  are opaque to the bot; they are modelled as strings.
\<close>

type_synonym ident = pystr

text \<open>
  \<open>context.user_data\<close>: the per-conversation dictionary. A field is \<open>None\<close> while its key
  is absent; \<open>user_data[k]\<close> on an absent key raises \<open>KeyError\<close>, and
  \<open>user_data.get(k)\<close> is falsy for an absent key.
\<close>

record session =
  waiting_for_question :: "bool option"
  daily_limit :: "int option"
  daily_count :: "int option"
  last_date :: "pystr option"
  user_id :: "ident option"

text \<open>
  The parts of the incoming \<open>Update\<close> that the handlers read. Telegram users need not have
  a last name: \<open>effective_user.last_name\<close> is \<open>None\<close> then.
\<close>

record update =
  tg_id :: pystr \<comment> \<open>\<open>str(update.effective_user.id)\<close>\<close>
  first_name :: pystr
  last_name :: "pystr option"
  message_text :: pystr \<comment> \<open>\<open>update.message.text\<close>\<close>

text \<open>An entry of the transcript, \<open>{'role': ..., 'content': ...}\<close>.\<close>

record transcript_entry =
  role :: pystr
  content :: pystr

definition assistant :: "pystr \<Rightarrow> transcript_entry" where
  "assistant c = \<lparr>role = ASSISTANT, content = c\<rparr>"

text \<open>
  A stream event: its type tag (\<open>event.event\<close>) and, for a message delta, the fragment
  \<open>event.message.content\<close>. The program compares the tag with
  \<open>CONVERSATION_MESSAGE_DELTA\<close> only; every other tag of the client library, the
  chat-completed one included, takes the same path.
\<close>

datatype chat_event_type =
    CONVERSATION_MESSAGE_DELTA
  | CONVERSATION_CHAT_COMPLETED
  | OTHER_EVENT nat

record event =
  event_type :: chat_event_type
  message_content :: pystr

definition delta :: "pystr \<Rightarrow> event" where
  "delta c = \<lparr>event_type = CONVERSATION_MESSAGE_DELTA, message_content = c\<rparr>"

text \<open>
  The calls that leave the process, in the order in which they are issued. Every call is
  recorded when it is issued, whether it returns or raises. Calls of the logger and
  \<open>print\<close> are not recorded.
\<close>

datatype effect =
    GetOrCreateUser pystr pystr \<comment> \<open>\<open>get_or_create_user(tg_user_id, user_name)\<close>\<close>
  | GetUserDailyLimit ident
  | GetTodayUsageCount ident pystr
  | CreateProject ident pystr \<comment> \<open>\<open>create_project(user_id, question)\<close>\<close>
  | ChatStream ident pystr \<comment> \<open>\<open>coze.chat.stream(user_id=..., question)\<close>\<close>
  | ReplyText pystr \<comment> \<open>\<open>update.message.reply_text(text)\<close>\<close>
  | ReplyPhoto pystr \<comment> \<open>\<open>update.message.reply_photo(url)\<close>\<close>
  | EditText pystr \<comment> \<open>\<open>message.edit_text(text)\<close>\<close>
  | UpdateProjectMessages ident "transcript_entry list"

datatype exn = TypeError | KeyError | IndexError | ExternalError

text \<open>
  What the world outside the process answers during one handler invocation:
  the current date in UTC+8, the values the backend returns (\<open>None\<close> for a falsy user or
  project), the events the chat stream yields and whether its iterator raises after them,
  and which calls raise. \<open>raises E t\<close> says whether the call issued last in the history
  \<open>t\<close> raises; since the history is its argument, every pattern of failures is covered.
\<close>

record env =
  today :: pystr
  user_result :: "ident option"
  daily_limit_result :: int
  used_count_result :: int
  project_result :: "ident option"
  stream_events :: "event list"
  stream_breaks :: bool
  raises :: "effect list \<Rightarrow> bool"

text \<open>The result of a piece of code: its value or the exception it raises, with the history.\<close>

datatype 'a res = Ok 'a "effect list" | Err exn "effect list"

text \<open>How a handler ends.\<close>

datatype outcome = Returned | Raised exn

section \<open>The handlers\<close>

text \<open>
  \<open>first_name + " " + last_name\<close>, the argument of \<open>initialize_user_data\<close> in all three
  handlers: concatenating \<open>None\<close> raises \<open>TypeError\<close>.
\<close>

definition display_name :: "update \<Rightarrow> exn + pystr" where
  "display_name U =
     (case last_name U of
        None \<Rightarrow> Inl TypeError
      | Some l \<Rightarrow> Inr (first_name U @ SPACE @ l))"

text \<open>\<open>initialize_user_data\<close> (lines 53 to 72).\<close>

definition initialize_user_data ::
  "env \<Rightarrow> session \<Rightarrow> pystr \<Rightarrow> pystr \<Rightarrow> effect list \<Rightarrow> session res" where
  "initialize_user_data E S tg_user_id user_name tr =
     (let current_date = today E;
          tr1 = tr @ [GetOrCreateUser tg_user_id user_name]
      in if raises E tr1 then Err ExternalError tr1
         else case user_result E of
                None \<Rightarrow> Ok S tr1
              | Some uid \<Rightarrow>
                  let tr2 = tr1 @ [GetUserDailyLimit uid]
                  in if raises E tr2 then Err ExternalError tr2
                     else let tr3 = tr2 @ [GetTodayUsageCount uid current_date]
                          in if raises E tr3 then Err ExternalError tr3
                             else Ok (S\<lparr>daily_limit := Some (daily_limit_result E),
                                        daily_count := Some (daily_limit_result E - used_count_result E),
                                        last_date := Some current_date,
                                        user_id := Some uid\<rparr>) tr3)"

text \<open>\<open>await update.message.reply_text(t)\<close> followed by \<open>return\<close>.\<close>

definition reply_and_return ::
  "env \<Rightarrow> pystr \<Rightarrow> session \<Rightarrow> effect list \<Rightarrow> outcome \<times> session \<times> effect list" where
  "reply_and_return E t S tr =
     (let tr1 = tr @ [ReplyText t]
      in (if raises E tr1 then Raised ExternalError else Returned, S, tr1))"

text \<open>\<open>start\<close> (lines 74 to 86).\<close>

definition start :: "env \<Rightarrow> update \<Rightarrow> session \<Rightarrow> effect list \<Rightarrow> outcome \<times> session \<times> effect list" where
  "start E U S tr =
     (case display_name U of
        Inl x \<Rightarrow> (Raised x, S, tr)
      | Inr name \<Rightarrow>
          (case initialize_user_data E S (tg_id U) name tr of
             Err x tr1 \<Rightarrow> (Raised x, S, tr1)
           | Ok S1 tr1 \<Rightarrow>
               (case daily_count S1 of
                  None \<Rightarrow> (Raised KeyError, S1, tr1)
                | Some n \<Rightarrow>
                    if n \<le> 0 then reply_and_return E EXHAUSTED S1 tr1
                    else let tr2 = tr1 @ [ReplyText ASK_QUESTION]
                         in if raises E tr2 then (Raised ExternalError, S1, tr2)
                            else (Returned, S1\<lparr>waiting_for_question := Some True\<rparr>, tr2))))"

subsection \<open>Streaming the answer\<close>

text \<open>The local variables of \<open>handle_message\<close> that the loop over the stream updates.\<close>

record loop_state =
  messages :: "transcript_entry list"
  text_buffer :: pystr
  message :: "unit option" \<comment> \<open>the handle of the answer message, \<open>None\<close> until it is sent\<close>
  content_buffer :: pystr

definition initial_loop_state :: loop_state where
  "initial_loop_state = \<lparr>messages = [], text_buffer = [], message = None, content_buffer = []\<rparr>"

text \<open>The test of line 124.\<close>

definition is_image :: "pystr \<Rightarrow> bool" where
  "is_image c = (startswith c IMG_OPEN \<and> contains c IMG_MID \<and> endswith c IMG_CLOSE)"

text \<open>The test of line 128.\<close>

definition is_status :: "pystr \<Rightarrow> bool" where
  "is_status c = startswith c STATUS_MARKER"

text \<open>
  The body of the loop (lines 122 to 146) for one event. \<open>content.split("](")[1]\<close> raises
  \<open>IndexError\<close> when there is no second piece. A raising \<open>edit_text\<close> is caught on the
  spot (line 144), so the edit leaves the same state whether it raises or not.
\<close>

definition on_event :: "env \<Rightarrow> pystr \<Rightarrow> event \<Rightarrow> loop_state \<Rightarrow> effect list \<Rightarrow> loop_state res" where
  "on_event E question ev ls tr =
     (if event_type ev = CONVERSATION_MESSAGE_DELTA then
        let c = message_content ev
        in if is_image c then
             (case split_str c IMG_MID of
                _ # p # _ \<Rightarrow>
                  let img_url = butlast p;
                      tr1 = tr @ [ReplyPhoto img_url]
                  in if raises E tr1 then Err ExternalError tr1
                     else Ok (ls\<lparr>messages := messages ls @ [assistant c]\<rparr>) tr1
              | _ \<Rightarrow> Err IndexError tr)
           else if is_status c then
             let tr1 = tr @ [ReplyText STATUS_MARKER]
             in if raises E tr1 then Err ExternalError tr1
                else Ok (ls\<lparr>messages := messages ls @ [assistant c]\<rparr>) tr1
           else
             let cb = content_buffer ls @ c
             in if message ls = None then
                  let tr1 = tr @ [ReplyText (header question @ cb)]
                  in if raises E tr1 then Err ExternalError tr1
                     else Ok (ls\<lparr>content_buffer := cb, message := Some (),
                                 text_buffer := header question @ cb\<rparr>) tr1
                else if BUFFER_SIZE \<le> length cb then
                  let tb = replace_str (text_buffer ls @ cb) LINE_BREAK NEWLINE
                  in Ok (ls\<lparr>text_buffer := tb, content_buffer := []\<rparr>) (tr @ [EditText tb])
                else Ok (ls\<lparr>content_buffer := cb\<rparr>) tr
      else Ok ls tr)"

text \<open>The loop over the events the stream yields.\<close>

fun consume :: "env \<Rightarrow> pystr \<Rightarrow> event list \<Rightarrow> loop_state \<Rightarrow> effect list \<Rightarrow> loop_state res" where
  "consume E question [] ls tr = Ok ls tr"
| "consume E question (ev # evs) ls tr =
     (case on_event E question ev ls tr of
        Err x tr1 \<Rightarrow> Err x tr1
      | Ok ls1 tr1 \<Rightarrow> consume E question evs ls1 tr1)"

text \<open>
  After the loop (lines 149 to 156): the final flush. Both calls are in one \<open>try\<close>, whose
  handler only logs: when the edit raises the project is not updated, and nothing
  propagates.
\<close>

definition finish :: "env \<Rightarrow> ident \<Rightarrow> loop_state \<Rightarrow> effect list \<Rightarrow> loop_state res" where
  "finish E project_id ls tr =
     (if content_buffer ls \<noteq> [] \<and> message ls \<noteq> None then
        let tb = text_buffer ls @ content_buffer ls;
            ms = messages ls @ [assistant tb];
            ls1 = ls\<lparr>text_buffer := tb, messages := ms\<rparr>;
            tr1 = tr @ [EditText tb]
        in if raises E tr1 then Ok ls1 tr1
           else Ok ls1 (tr1 @ [UpdateProjectMessages project_id ms])
      else Ok ls tr)"

text \<open>
  The body of the outer \<open>try\<close> (lines 114 to 156): open the stream with the project id as
  session id, consume it, flush. The iterator raising after the events it yielded leaves
  the loop with that exception.
\<close>

definition answer :: "env \<Rightarrow> pystr \<Rightarrow> ident \<Rightarrow> effect list \<Rightarrow> loop_state res" where
  "answer E question project_id tr =
     (let tr1 = tr @ [ChatStream project_id question]
      in if raises E tr1 then Err ExternalError tr1
         else case consume E question (stream_events E) initial_loop_state tr1 of
                Err x tr2 \<Rightarrow> Err x tr2
              | Ok ls tr2 \<Rightarrow>
                  if stream_breaks E then Err ExternalError tr2
                  else finish E project_id ls tr2)"

text \<open>
  The outer \<open>try\<close> with its handler (lines 113 to 160): any exception that leaves the body
  is answered with the generic failure reply.
\<close>

definition stream_reply ::
  "env \<Rightarrow> pystr \<Rightarrow> ident \<Rightarrow> session \<Rightarrow> effect list \<Rightarrow> outcome \<times> session \<times> effect list" where
  "stream_reply E question project_id S tr =
     (case answer E question project_id tr of
        Ok ls tr1 \<Rightarrow> (Returned, S, tr1)
      | Err x tr1 \<Rightarrow> reply_and_return E GENERIC_FAILURE S tr1)"

text \<open>
  The first part of \<open>handle_message\<close> once a question is awaited (lines 91 to 105):
  refresh the quota, check it, take the text of the message as the question, create the
  project. Either the handler ends here (\<open>Inl\<close>, with how it ends), or the project exists
  and its id is handed on (\<open>Inr\<close>) to stream the answer.
\<close>

definition accept_question ::
  "env \<Rightarrow> update \<Rightarrow> session \<Rightarrow> effect list \<Rightarrow>
     (outcome \<times> session \<times> effect list) + (ident \<times> session \<times> effect list)" where
  "accept_question E U S tr =
     (case display_name U of
        Inl x \<Rightarrow> Inl (Raised x, S, tr)
      | Inr name \<Rightarrow>
          (case initialize_user_data E S (tg_id U) name tr of
             Err x tr1 \<Rightarrow> Inl (Raised x, S, tr1)
           | Ok S1 tr1 \<Rightarrow>
               (case daily_count S1 of
                  None \<Rightarrow> Inl (Raised KeyError, S1, tr1)
                | Some n \<Rightarrow>
                    if n \<le> 0 then Inl (reply_and_return E EXHAUSTED S1 tr1)
                    else
                      let question = message_text U;
                          S2 = S1\<lparr>waiting_for_question := Some False\<rparr>
                      in (case user_id S2 of
                            None \<Rightarrow> Inl (Raised KeyError, S2, tr1)
                          | Some uid \<Rightarrow>
                              let tr2 = tr1 @ [CreateProject uid question]
                              in if raises E tr2 then Inl (Raised ExternalError, S2, tr2)
                                 else (case project_result E of
                                         None \<Rightarrow> Inl (reply_and_return E SYSTEM_ERROR S2 tr2)
                                       | Some pid \<Rightarrow> Inr (pid, S2, tr2))))))"

text \<open>\<open>handle_message\<close> (lines 88 to 162).\<close>

definition handle_message ::
  "env \<Rightarrow> update \<Rightarrow> session \<Rightarrow> effect list \<Rightarrow> outcome \<times> session \<times> effect list" where
  "handle_message E U S tr =
     (if waiting_for_question S = Some True then
        (case accept_question E U S tr of
           Inl ended \<Rightarrow> ended
         | Inr (pid, S2, tr2) \<Rightarrow> stream_reply E (message_text U) pid S2 tr2)
      else reply_and_return E NEED_START S tr)"

section \<open>Reading a history\<close>

text \<open>The history a piece of code leaves behind, whether it returns or raises.\<close>

fun trace_of :: "'a res \<Rightarrow> effect list" where
  "trace_of (Ok v tr) = tr"
| "trace_of (Err x tr) = tr"

text \<open>The calls issued after the history \<open>tr\<close>, in a history \<open>tr'\<close> that extends it.\<close>

definition issued :: "effect list \<Rightarrow> effect list \<Rightarrow> effect list" where
  "issued tr tr' = drop (length tr) tr'"

text \<open>Of the calls \<open>es\<close> issued after the history \<open>tr\<close>, those that returned.\<close>

fun returned :: "env \<Rightarrow> effect list \<Rightarrow> effect list \<Rightarrow> effect list" where
  "returned E tr [] = []"
| "returned E tr (e # es) =
     (if raises E (tr @ [e]) then [] else [e]) @ returned E (tr @ [e]) es"

fun is_create_project :: "effect \<Rightarrow> bool" where
  "is_create_project (CreateProject u q) = True"
| "is_create_project e = False"

fun is_chat_stream :: "effect \<Rightarrow> bool" where
  "is_chat_stream (ChatStream p q) = True"
| "is_chat_stream e = False"

fun is_update_project :: "effect \<Rightarrow> bool" where
  "is_update_project (UpdateProjectMessages p ms) = True"
| "is_update_project e = False"

fun is_edit_text :: "effect \<Rightarrow> bool" where
  "is_edit_text (EditText t) = True"
| "is_edit_text e = False"

fun is_reply_text :: "effect \<Rightarrow> bool" where
  "is_reply_text (ReplyText t) = True"
| "is_reply_text e = False"

text \<open>
  Reading a list of calls from its start, a project is created before the first chat
  stream is opened (if one is opened at all).
\<close>

fun created_before_stream :: "effect list \<Rightarrow> bool" where
  "created_before_stream [] = True"
| "created_before_stream (e # es) =
     (is_create_project e \<or> (\<not> is_chat_stream e \<and> created_before_stream es))"

text \<open>The three calls by which \<open>initialize_user_data\<close> refreshes the quota of user \<open>uid\<close>.\<close>

definition refresh_calls :: "env \<Rightarrow> update \<Rightarrow> pystr \<Rightarrow> ident \<Rightarrow> effect list" where
  "refresh_calls E U name uid =
     [GetOrCreateUser (tg_id U) name, GetUserDailyLimit uid, GetTodayUsageCount uid (today E)]"

text \<open>The fragments of a stream: the contents of its message-delta events, in order.\<close>

definition fragments :: "event list \<Rightarrow> pystr list" where
  "fragments evs =
     map message_content (filter (\<lambda>ev. event_type ev = CONVERSATION_MESSAGE_DELTA) evs)"

text \<open>A plain-text fragment: neither image-formatted nor a status marker.\<close>

definition plain :: "pystr \<Rightarrow> bool" where
  "plain c = (\<not> is_image c \<and> \<not> is_status c)"

text \<open>The number of characters in all fragments of a stream.\<close>

definition total_fragment_length :: "event list \<Rightarrow> nat" where
  "total_fragment_length evs = length (concat (fragments evs))"

text \<open>The calls the loop over the stream can issue while answering the question \<open>q\<close>.\<close>

fun loop_call :: "pystr \<Rightarrow> effect \<Rightarrow> bool" where
  "loop_call q (ReplyPhoto u) = True"
| "loop_call q (EditText t) = True"
| "loop_call q (ReplyText t) = (t = STATUS_MARKER \<or> startswith t (header q))"
| "loop_call q e = False"

text \<open>The number of characters waiting in \<open>content_buffer\<close> (none after an exception).\<close>

fun buffered :: "loop_state res \<Rightarrow> nat" where
  "buffered (Ok ls tr) = length (content_buffer ls)"
| "buffered (Err x tr) = 0"

text \<open>The number of \<open>edit_text\<close> and of \<open>reply_text\<close> calls in a history.\<close>

definition edits :: "effect list \<Rightarrow> nat" where
  "edits tr = length (filter is_edit_text tr)"

definition replies :: "effect list \<Rightarrow> nat" where
  "replies tr = length (filter is_reply_text tr)"

text \<open>
  The calls the first part of \<open>handle_message\<close> can issue besides the creation of the
  project: the three calls of the refresh and its two replies.
\<close>

fun quota_call :: "effect \<Rightarrow> bool" where
  "quota_call (GetOrCreateUser t n) = True"
| "quota_call (GetUserDailyLimit u) = True"
| "quota_call (GetTodayUsageCount u d) = True"
| "quota_call (ReplyText t) = (t = EXHAUSTED \<or> t = SYSTEM_ERROR)"
| "quota_call e = False"

text \<open>A call that neither opens a chat stream nor updates a project.\<close>

definition quiet :: "effect \<Rightarrow> bool" where
  "quiet e = (\<not> is_chat_stream e \<and> \<not> is_update_project e)"

text \<open>
  The transcript entries of the image-formatted and status-marker fragments of a stream,
  in order: one assistant entry with the content of each such fragment.
\<close>

definition special_entries :: "event list \<Rightarrow> transcript_entry list" where
  "special_entries evs = map assistant (filter (\<lambda>c. \<not> plain c) (fragments evs))"

text \<open>
  Among the calls \<open>new\<close>, issued after the history \<open>tr\<close>, there is a send of the answer
  message (a text that starts with the header for the question \<open>q\<close>) that returned.
\<close>

definition answer_sent :: "env \<Rightarrow> pystr \<Rightarrow> effect list \<Rightarrow> effect list \<Rightarrow> bool" where
  "answer_sent E q tr new = list_ex (\<lambda>e. case e of ReplyText t \<Rightarrow> startswith t (header q) | _ \<Rightarrow> False) (returned E tr new)"

text \<open>
  Every project update among the calls \<open>new\<close> is their last call, directly after an edit
  of the answer message, for the project that was created, carrying the entries of all
  special fragments of the stream followed by the text of that edit, in a run in which
  the stream ended and the answer message had been sent.
\<close>

definition update_last_only :: "env \<Rightarrow> update \<Rightarrow> effect list \<Rightarrow> effect list \<Rightarrow> bool" where
  "update_last_only E U tr new =
     (\<forall>p ms. UpdateProjectMessages p ms \<in> set new \<longrightarrow>
        (\<exists>pre t. new = pre @ [EditText t, UpdateProjectMessages p ms]
           \<and> ms = special_entries (stream_events E) @ [assistant t]
           \<and> project_result E = Some p \<and> \<not> stream_breaks E
           \<and> answer_sent E (message_text U) tr pre))"

text \<open>
  The number of \<open>reply_text\<close> calls so far, counting one more while the answer message
  is still to be sent.
\<close>

fun pending_reply :: "loop_state res \<Rightarrow> nat" where
  "pending_reply (Ok ls tr) = replies tr + (if message ls = None then 1 else 0)"
| "pending_reply (Err x tr) = replies tr"

text \<open>The replacement of line 141.\<close>

definition normalise :: "pystr \<Rightarrow> pystr" where
  "normalise s = replace_str s LINE_BREAK NEWLINE"

text \<open>The number of positions at which \<open>p\<close> occurs in \<open>s\<close>.\<close>

fun count_str :: "'a list \<Rightarrow> 'a list \<Rightarrow> nat" where
  "count_str [] p = (if p = [] then 1 else 0)"
| "count_str (c # cs) p = (if startswith (c # cs) p then 1 else 0) + count_str cs p"

section \<open>Concrete inputs\<close>

text \<open>
  Small inputs at which the theorems below are instantiated: a user "A B" with Telegram id
  "1" who sends the text "q"; a backend that knows this user as "u" with a daily limit of
  3, creates the project "p", and where no call raises.
\<close>

definition E_base :: env where
  "E_base = \<lparr>today = [0x64], user_result = Some [0x75], daily_limit_result = 3,
     used_count_result = 0, project_result = Some [0x70], stream_events = [],
     stream_breaks = False, raises = (\<lambda>t. False)\<rparr>"

text \<open>The user has used all three questions of the day.\<close>

definition E_exhausted :: env where
  "E_exhausted = E_base\<lparr>used_count_result := 3\<rparr>"

definition U_msg :: update where
  "U_msg = \<lparr>tg_id = [0x31], first_name = [0x41], last_name = Some [0x42], message_text = [0x71]\<rparr>"

text \<open>The session after a successful \<open>/start\<close>, and the session of a first contact.\<close>

definition S_waiting :: session where
  "S_waiting = \<lparr>waiting_for_question = Some True, daily_limit = Some 3, daily_count = Some 3,
     last_date = Some [0x64], user_id = Some [0x75]\<rparr>"

definition S_fresh :: session where
  "S_fresh = \<lparr>waiting_for_question = None, daily_limit = None, daily_count = None,
     last_date = None, user_id = None\<rparr>"

text \<open>The backend does not resolve the user.\<close>

definition E_no_user :: env where
  "E_no_user = E_base\<lparr>user_result := None\<rparr>"

text \<open>A chat-completed event; it carries no message.\<close>

definition chat_completed :: event where
  "chat_completed = \<lparr>event_type = CONVERSATION_CHAT_COMPLETED, message_content = []\<rparr>"

text \<open>The fragment \<open>"![a](u)"\<close>.\<close>

definition one_separator :: pystr where
  "one_separator = IMG_OPEN @ [0x61] @ IMG_MID @ [0x75] @ IMG_CLOSE"

text \<open>The fragment \<open>"![a](b](c)"\<close>, in which \<open>"]("\<close> occurs twice.\<close>

definition two_separators :: pystr where
  "two_separators = IMG_OPEN @ [0x61] @ IMG_MID @ [0x62] @ IMG_MID @ [0x63] @ IMG_CLOSE"

text \<open>
  Streams: an empty fragment followed by 26 times \<open>"x"\<close> and the line-break marker (34
  characters); the single fragment \<open>"a<br><br>b"\<close>; a single fragment of 90 times
  \<open>"x"\<close>; the fragment \<open>"a"\<close> after which the stream raises; an empty fragment
  followed by \<open>"a<br><br>b"\<close>; the single fragment made of the status marker followed by
  \<open>"!"\<close>.
\<close>

definition E_two_fragments :: env where
  "E_two_fragments = E_base\<lparr>stream_events := [delta [], delta (replicate 26 0x78 @ LINE_BREAK)]\<rparr>"

definition E_one_fragment :: env where
  "E_one_fragment = E_base\<lparr>stream_events := [delta ([0x61] @ LINE_BREAK @ [0x62])]\<rparr>"

definition E_long_fragment :: env where
  "E_long_fragment = E_base\<lparr>stream_events := [delta (replicate 90 0x78)]\<rparr>"

definition E_broken_stream :: env where
  "E_broken_stream = E_base\<lparr>stream_events := [delta [0x61]], stream_breaks := True\<rparr>"

definition E_late_fragment :: env where
  "E_late_fragment = E_base\<lparr>stream_events := [delta [], delta ([0x61] @ LINE_BREAK @ [0x62])]\<rparr>"

definition E_status_fragment :: env where
  "E_status_fragment = E_base\<lparr>stream_events := [delta (STATUS_MARKER @ [0x21])]\<rparr>"

text \<open>The calls up to the creation of the project, for the user and message above.\<close>

definition quota_calls :: "effect list" where
  "quota_calls = [GetOrCreateUser [0x31] [0x41, 0x20, 0x42], GetUserDailyLimit [0x75],
     GetTodayUsageCount [0x75] [0x64], CreateProject [0x75] [0x71]]"

section \<open>Properties of the string operations\<close>

lemma startswith_prefix: "startswith s p \<longleftrightarrow> prefix p s"
  by (induction s p rule: startswith.induct) auto

lemma startswith_same_append [simp]: "startswith (p @ s) p"
  by (simp add: startswith_prefix)

lemma startswith_take: "startswith s p \<longleftrightarrow> take (length p) s = p"
  by (induction s p rule: startswith.induct) auto

lemma startswith_length: "startswith s p \<Longrightarrow> length p \<le> length s"
  by (simp add: startswith_prefix prefix_length_le)

lemma startswith_append: "startswith s p \<Longrightarrow> startswith (s @ b) p"
  by (simp add: startswith_prefix)

lemma startswith_append_long:
  "length p \<le> length s \<Longrightarrow> startswith (s @ b) p \<longleftrightarrow> startswith s p"
  by (simp add: startswith_take)

lemma drop_append_long: "n \<le> length s \<Longrightarrow> drop n (s @ b) = drop n s @ b"
  by simp

lemma replace_str_short:
  "length s < length old \<Longrightarrow> replace_str s old new = s"
proof (induction s)
  case Nil
  then show ?case by simp
next
  case (Cons c cs)
  have "\<not> startswith (c # cs) old"
    using Cons.prems startswith_length [of "c # cs" old] by auto
  with Cons show ?case by simp
qed

lemma replace_str_fresh_prefix:
  "set w \<inter> set old = {} \<Longrightarrow> replace_str (w @ s) old new = w @ replace_str s old new"
proof (induction w)
  case Nil
  then show ?case by simp
next
  case (Cons x w)
  have "\<not> (old \<noteq> [] \<and> startswith (x # w @ s) old)"
  proof
    assume a: "old \<noteq> [] \<and> startswith (x # w @ s) old"
    then obtain y ys where old: "old = y # ys" by (cases old) auto
    with a have "x = y" by simp
    with old Cons.prems show False by auto
  qed
  then have "replace_str (x # w @ s) old new = x # replace_str (w @ s) old new"
    by auto
  with Cons show ?case by simp
qed

lemma take_replace_str:
  "new \<noteq> [] \<Longrightarrow>
   take k (replace_str s old new @ b) = take k (s @ b)
   \<or> (\<exists>x \<in> set new. x \<in> set (take k (replace_str s old new @ b)))"
proof (induction s old new arbitrary: k rule: replace_str.induct)
  case (1 old new)
  then show ?case by simp
next
  case (2 c cs old new)
  show ?case
  proof (cases k)
    case 0
    then show ?thesis by simp
  next
    case (Suc k')
    show ?thesis
    proof (cases "old \<noteq> [] \<and> startswith (c # cs) old")
      case True
      from 2(3) obtain n ns where "new = n # ns" by (cases new) auto
      with True Suc show ?thesis by simp
    next
      case False
      with 2(2) [OF False 2(3), of k'] Suc show ?thesis by auto
    qed
  qed
qed

lemma startswith_replace_str:
  assumes "new \<noteq> []" and "set new \<inter> set old = {}"
      and "startswith (c # replace_str cs old new @ b) old"
  shows "startswith (c # cs @ b) old"
proof (cases old)
  case Nil
  then show ?thesis by simp
next
  case (Cons y ys)
  with assms(3) have c: "c = y" and t: "take (length ys) (replace_str cs old new @ b) = ys"
    by (simp_all add: startswith_take)
  from take_replace_str [OF assms(1), of "length ys" cs old b]
  have "take (length ys) (cs @ b) = ys"
  proof
    assume "take (length ys) (replace_str cs old new @ b) = take (length ys) (cs @ b)"
    with t show ?thesis by simp
  next
    assume "\<exists>x \<in> set new. x \<in> set (take (length ys) (replace_str cs old new @ b))"
    with t obtain x where "x \<in> set new" "x \<in> set ys" by auto
    with assms(2) Cons show ?thesis by auto
  qed
  with c Cons show ?thesis by (simp add: startswith_take)
qed

lemma replace_str_absorb:
  "new \<noteq> [] \<Longrightarrow> set new \<inter> set old = {} \<Longrightarrow>
   replace_str (replace_str a old new @ b) old new = replace_str (a @ b) old new"
proof (induction a old new rule: replace_str.induct)
  case (1 old new)
  then show ?case by simp
next
  case (2 c cs old new)
  show ?case
  proof (cases "old \<noteq> [] \<and> startswith (c # cs) old")
    case True
    then have len: "length old \<le> length (c # cs)"
      using startswith_length by blast
    have "replace_str (replace_str (c # cs) old new @ b) old new
          = new @ replace_str (replace_str (drop (length old) (c # cs)) old new @ b) old new"
      using True 2(4) by (simp add: replace_str_fresh_prefix del: drop_Suc_Cons)
    also have "\<dots> = new @ replace_str (drop (length old) (c # cs) @ b) old new"
      using 2(1) [OF True 2(3) 2(4)] by simp
    also have "\<dots> = replace_str ((c # cs) @ b) old new"
      using True startswith_append [of "c # cs" old b] drop_append_long [OF len, of b]
      by (simp del: drop_Suc_Cons)
    finally show ?thesis .
  next
    case False
    then have step: "replace_str (c # cs) old new = c # replace_str cs old new"
      by auto
    show ?thesis
    proof (cases "old \<noteq> [] \<and> startswith (c # cs @ b) old")
      case True
      have "length (c # cs) < length old"
      proof (rule ccontr)
        assume "\<not> length (c # cs) < length old"
        then have "startswith (c # cs) old"
          using True startswith_append_long [of old "c # cs" b] by simp
        with True False show False by simp
      qed
      then have "replace_str (c # cs) old new = c # cs"
        by (rule replace_str_short)
      then show ?thesis by (simp only:)
    next
      case nostraddle: False
      then have "\<not> (old \<noteq> [] \<and> startswith (c # replace_str cs old new @ b) old)"
        using startswith_replace_str [OF 2(3) 2(4)] by blast
      then have "replace_str (c # (replace_str cs old new @ b)) old new
                 = c # replace_str (replace_str cs old new @ b) old new"
        by auto
      also have "\<dots> = c # replace_str (cs @ b) old new"
        using 2(2) [OF False 2(3) 2(4)] by simp
      also have "\<dots> = replace_str (c # (cs @ b)) old new"
        using nostraddle by auto
      finally show ?thesis by (simp only: step append_Cons)
    qed
  qed
qed

subsection \<open>Splitting an image-formatted fragment\<close>

lemma contains_sublist: "contains s p \<longleftrightarrow> sublist p s"
  by (induction s) (auto simp: startswith_prefix sublist_Cons_right)

lemma endswith_suffix: "endswith s p \<longleftrightarrow> suffix p s"
  by (simp add: endswith_def startswith_prefix suffix_to_prefix)

lemma split_str_no_separator:
  "\<not> contains s sep \<Longrightarrow> split_str s sep = [s]"
  by (induction s sep rule: split_str.induct) auto

lemma startswith_mid: "startswith s IMG_MID \<longleftrightarrow> take (Suc (Suc 0)) s = [0x5D, 0x28]"
  by (simp add: startswith_take IMG_MID_def)

lemma not_contains_before_close:
  "\<not> contains url IMG_MID \<Longrightarrow> \<not> contains (url @ IMG_CLOSE) IMG_MID"
proof (induction url)
  case Nil
  then show ?case by (simp add: startswith_mid IMG_CLOSE_def)
next
  case (Cons x url)
  then show ?case
    by (cases url) (auto simp: startswith_mid IMG_CLOSE_def)
qed

lemma split_str_first_separator:
  "\<not> contains a IMG_MID \<Longrightarrow> split_str (a @ IMG_MID @ r) IMG_MID = a # split_str r IMG_MID"
proof (induction a)
  case Nil
  then show ?case by (simp add: IMG_MID_def)
next
  case (Cons x a)
  then have no: "\<not> contains a IMG_MID" and here: "\<not> startswith (x # a) IMG_MID"
    by simp_all
  have "\<not> startswith (x # a @ IMG_MID @ r) IMG_MID"
    using here by (cases a) (auto simp: startswith_mid IMG_MID_def)
  with Cons.IH [OF no] show ?case by simp
qed

lemma not_contains_after_open:
  "\<not> contains alt IMG_MID \<Longrightarrow> \<not> contains (IMG_OPEN @ alt) IMG_MID"
  by (cases alt) (auto simp: IMG_OPEN_def startswith_mid)

lemma is_image_shape: "is_image (IMG_OPEN @ alt @ IMG_MID @ url @ IMG_CLOSE)"
proof -
  have "sublist IMG_MID ((IMG_OPEN @ alt) @ IMG_MID @ (url @ IMG_CLOSE))"
    unfolding sublist_def by blast
  moreover have "suffix IMG_CLOSE (((IMG_OPEN @ alt) @ IMG_MID @ url) @ IMG_CLOSE)"
    unfolding suffix_def by blast
  ultimately show ?thesis
    by (simp add: is_image_def contains_sublist endswith_suffix)
qed

lemma split_str_image:
  assumes "\<not> contains alt IMG_MID" and "\<not> contains url IMG_MID"
  shows "split_str (IMG_OPEN @ alt @ IMG_MID @ url @ IMG_CLOSE) IMG_MID
         = [IMG_OPEN @ alt, url @ IMG_CLOSE]"
proof -
  have "split_str ((IMG_OPEN @ alt) @ IMG_MID @ (url @ IMG_CLOSE)) IMG_MID
        = (IMG_OPEN @ alt) # split_str (url @ IMG_CLOSE) IMG_MID"
    using assms(1) by (intro split_str_first_separator not_contains_after_open)
  also have "split_str (url @ IMG_CLOSE) IMG_MID = [url @ IMG_CLOSE]"
    using assms(2) by (intro split_str_no_separator not_contains_before_close)
  finally show ?thesis by simp
qed

lemma count_str_zero: "count_str s p = 0 \<longleftrightarrow> \<not> contains s p"
  by (induction s) auto

lemma first_separator:
  "contains s IMG_MID \<Longrightarrow> \<exists>a b. s = a @ IMG_MID @ b \<and> \<not> contains a IMG_MID"
proof (induction s)
  case Nil
  then show ?case by (simp add: IMG_MID_def)
next
  case (Cons c s)
  show ?case
  proof (cases "startswith (c # s) IMG_MID")
    case True
    then have "c # s = [] @ IMG_MID @ drop 2 (c # s)"
      by (cases s) (auto simp: IMG_MID_def)
    moreover have "\<not> contains [] IMG_MID" by (simp add: IMG_MID_def)
    ultimately show ?thesis by blast
  next
    case False
    with Cons.prems have "contains s IMG_MID" by simp
    from Cons.IH [OF this] obtain a b where s: "s = a @ IMG_MID @ b" and a: "\<not> contains a IMG_MID"
      by blast
    have "\<not> startswith (c # a) IMG_MID"
    proof
      assume "startswith (c # a) IMG_MID"
      then have "startswith ((c # a) @ IMG_MID @ b) IMG_MID" by (rule startswith_append)
      with s False show False by simp
    qed
    with a have "\<not> contains (c # a) IMG_MID" by simp
    moreover have "c # s = (c # a) @ IMG_MID @ b" using s by simp
    ultimately show ?thesis by blast
  qed
qed

lemma count_str_first_separator:
  "\<not> contains a IMG_MID \<Longrightarrow> count_str (a @ IMG_MID @ b) IMG_MID = 1 + count_str b IMG_MID"
proof (induction a)
  case Nil
  show ?case by (cases b) (auto simp: IMG_MID_def)
next
  case (Cons x a)
  then have no: "\<not> contains a IMG_MID" and here: "\<not> startswith (x # a) IMG_MID"
    by simp_all
  have "\<not> startswith (x # a @ IMG_MID @ b) IMG_MID"
    using here by (cases a) (auto simp: startswith_mid IMG_MID_def)
  with Cons.IH [OF no] show ?case by simp
qed

lemma contains_append_left: "contains s p \<Longrightarrow> contains (w @ s) p"
  by (induction w) auto

lemma contains_append_right: "contains s p \<Longrightarrow> contains (s @ w) p"
proof -
  assume "contains s p"
  then obtain a b where "s = a @ p @ b"
    by (auto simp: contains_sublist sublist_def)
  then have "s @ w = a @ p @ (b @ w)" by simp
  then show ?thesis
    unfolding contains_sublist sublist_def by blast
qed

lemma image_single_separator_shape:
  assumes "is_image c" and "count_str c IMG_MID = 1"
  shows "\<exists>alt url. c = IMG_OPEN @ alt @ IMG_MID @ url @ IMG_CLOSE
           \<and> \<not> contains alt IMG_MID \<and> \<not> contains url IMG_MID"
proof -
  from assms(1) have st: "startswith c IMG_OPEN" and co: "contains c IMG_MID"
    and en: "endswith c IMG_CLOSE"
    by (simp_all add: is_image_def)
  from first_separator [OF co] obtain a b where c: "c = a @ IMG_MID @ b"
    and a: "\<not> contains a IMG_MID"
    by blast
  from assms(2) count_str_first_separator [OF a, of b] c have "count_str b IMG_MID = 0"
    by simp
  then have b: "\<not> contains b IMG_MID" by (simp add: count_str_zero)
  from st c obtain alt where alt: "a = IMG_OPEN @ alt"
    by (cases a; cases "tl a") (auto simp: IMG_OPEN_def IMG_MID_def)
  from en c obtain url where url: "b = url @ IMG_CLOSE"
    by (cases b rule: rev_cases) (auto simp: endswith_def IMG_CLOSE_def IMG_MID_def)
  from a alt have "\<not> contains alt IMG_MID"
    using contains_append_left [of alt IMG_MID IMG_OPEN] by auto
  moreover from b url have "\<not> contains url IMG_MID"
    using contains_append_right [of url IMG_MID IMG_CLOSE] by auto
  ultimately show ?thesis using c alt url by auto
qed

lemma count_str_image_shape:
  assumes "\<not> contains alt IMG_MID" and "\<not> contains url IMG_MID"
  shows "count_str (IMG_OPEN @ alt @ IMG_MID @ url @ IMG_CLOSE) IMG_MID = 1"
proof -
  have "count_str ((IMG_OPEN @ alt) @ IMG_MID @ (url @ IMG_CLOSE)) IMG_MID
        = 1 + count_str (url @ IMG_CLOSE) IMG_MID"
    using assms(1) by (intro count_str_first_separator not_contains_after_open)
  moreover have "count_str (url @ IMG_CLOSE) IMG_MID = 0"
    using assms(2) not_contains_before_close by (simp add: count_str_zero)
  ultimately show ?thesis by simp
qed

lemma split_str_not_Nil: "split_str s sep \<noteq> []"
  by (induction s sep rule: split_str.induct) (auto split: list.splits)

lemma split_str_two_pieces:
  "sep \<noteq> [] \<Longrightarrow> contains s sep \<Longrightarrow> \<exists>p1 p2 ps. split_str s sep = p1 # p2 # ps"
proof (induction s sep rule: split_str.induct)
  case (1 sep)
  then show ?case by simp
next
  case (2 c cs sep)
  show ?case
  proof (cases "startswith (c # cs) sep")
    case True
    obtain p ps where "split_str (drop (length sep) (c # cs)) sep = p # ps"
      using split_str_not_Nil [of "drop (length sep) (c # cs)" sep] by (cases "split_str (drop (length sep) (c # cs)) sep") auto
    with True 2(3) show ?thesis by simp
  next
    case False
    with 2(4) have "contains cs sep" by simp
    from 2(2) [OF _ 2(3) this] False obtain p1 p2 ps where "split_str cs sep = p1 # p2 # ps"
      by auto
    with False show ?thesis by simp
  qed
qed

section \<open>Properties of the loop over the stream\<close>

text \<open>
  Line 125 never raises \<open>IndexError\<close>: the test of line 124 makes sure there is a second
  piece.
\<close>

lemma image_has_url:
  "is_image c \<Longrightarrow> \<exists>p1 p2 ps. split_str c IMG_MID = p1 # p2 # ps"
  using split_str_two_pieces [of IMG_MID c] by (simp add: is_image_def IMG_MID_def)

lemma on_event_no_IndexError: "on_event E q ev ls tr \<noteq> Err IndexError tr'"
proof (cases "event_type ev = CONVERSATION_MESSAGE_DELTA \<and> is_image (message_content ev)")
  case True
  then obtain p1 p2 ps where "split_str (message_content ev) IMG_MID = p1 # p2 # ps"
    using image_has_url by blast
  with True show ?thesis by (simp add: on_event_def Let_def)
next
  case False
  then show ?thesis by (auto simp: on_event_def Let_def)
qed

lemma on_event_other:
  "event_type ev \<noteq> CONVERSATION_MESSAGE_DELTA \<Longrightarrow> on_event E q ev ls tr = Ok ls tr"
  by (simp add: on_event_def)

lemma on_event_calls:
  "\<exists>new. trace_of (on_event E q ev ls tr) = tr @ new \<and> list_all (loop_call q) new"
  by (auto simp: on_event_def Let_def split: list.splits)

lemma consume_calls:
  "\<exists>new. trace_of (consume E q evs ls tr) = tr @ new \<and> list_all (loop_call q) new"
proof (induction evs arbitrary: ls tr)
  case Nil
  then show ?case by simp
next
  case (Cons ev evs)
  obtain new where new: "trace_of (on_event E q ev ls tr) = tr @ new" "list_all (loop_call q) new"
    using on_event_calls by blast
  show ?case
  proof (cases "on_event E q ev ls tr")
    case (Ok ls1 tr1)
    with new have tr1: "tr1 = tr @ new" by simp
    obtain new' where "trace_of (consume E q evs ls1 tr1) = tr1 @ new'" "list_all (loop_call q) new'"
      using Cons.IH by blast
    with Ok tr1 new(2) show ?thesis by auto
  next
    case (Err x tr1)
    with new show ?thesis by auto
  qed
qed

lemma on_event_edits:
  "30 * edits (trace_of (on_event E q ev ls tr)) + buffered (on_event E q ev ls tr)
   \<le> 30 * edits tr + length (content_buffer ls)
      + (if event_type ev = CONVERSATION_MESSAGE_DELTA then length (message_content ev) else 0)"
  by (auto simp: on_event_def Let_def edits_def BUFFER_SIZE_def split: list.splits)

lemma fragments_Cons:
  "fragments (ev # evs) =
     (if event_type ev = CONVERSATION_MESSAGE_DELTA then [message_content ev] else []) @ fragments evs"
  by (simp add: fragments_def)

lemma consume_edits:
  "30 * edits (trace_of (consume E q evs ls tr)) + buffered (consume E q evs ls tr)
   \<le> 30 * edits tr + length (content_buffer ls) + total_fragment_length evs"
proof (induction evs arbitrary: ls tr)
  case Nil
  then show ?case by (simp add: total_fragment_length_def fragments_def)
next
  case (Cons ev evs)
  have len: "total_fragment_length (ev # evs)
      = (if event_type ev = CONVERSATION_MESSAGE_DELTA then length (message_content ev) else 0)
        + total_fragment_length evs"
    by (simp add: total_fragment_length_def fragments_Cons)
  show ?case
  proof (cases "on_event E q ev ls tr")
    case (Ok ls1 tr1)
    with on_event_edits [of E q ev ls tr] Cons.IH [of ls1 tr1] len show ?thesis by simp
  next
    case (Err x tr1)
    with on_event_edits [of E q ev ls tr] len show ?thesis by simp
  qed
qed

section \<open>Properties of the handlers\<close>

lemma initialize_refreshed:
  assumes "initialize_user_data E S t name tr = Ok S1 tr1" and "user_result E = Some uid"
  shows "tr1 = tr @ [GetOrCreateUser t name, GetUserDailyLimit uid, GetTodayUsageCount uid (today E)]
       \<and> S1 = S\<lparr>daily_limit := Some (daily_limit_result E),
                daily_count := Some (daily_limit_result E - used_count_result E),
                last_date := Some (today E), user_id := Some uid\<rparr>"
  using assms by (auto simp: initialize_user_data_def Let_def split: if_splits)

lemma initialize_unresolved:
  "user_result E = None \<Longrightarrow>
   initialize_user_data E S t name tr =
     (if raises E (tr @ [GetOrCreateUser t name])
      then Err ExternalError (tr @ [GetOrCreateUser t name])
      else Ok S (tr @ [GetOrCreateUser t name]))"
  by (simp add: initialize_user_data_def Let_def)

lemmas fixture_defs =
  E_base_def E_exhausted_def E_no_user_def U_msg_def S_waiting_def S_fresh_def

lemma init_exhausted:
  "initialize_user_data E_exhausted S_waiting [0x31] [0x41, 0x20, 0x42] [] =
     Ok (S_waiting\<lparr>daily_count := Some 0\<rparr>)
        [GetOrCreateUser [0x31] [0x41, 0x20, 0x42], GetUserDailyLimit [0x75],
         GetTodayUsageCount [0x75] [0x64]]"
  by (simp add: initialize_user_data_def E_exhausted_def E_base_def S_waiting_def Let_def)

lemma display_name_U_msg: "display_name U_msg = Inr [0x41, 0x20, 0x42]"
  by (simp add: display_name_def U_msg_def SPACE_def)

lemma status_not_image: "is_status c \<Longrightarrow> \<not> is_image c"
  by (cases c) (auto simp: is_status_def is_image_def STATUS_MARKER_def IMG_OPEN_def)

subsection \<open>The first part of the message handler\<close>

lemma returned_append:
  "returned E tr (a @ b) = returned E tr a @ returned E (tr @ a) b"
  by (induction a arbitrary: tr) auto

lemma initialize_calls:
  "\<exists>new. trace_of (initialize_user_data E S t n tr) = tr @ new \<and> list_all quota_call new"
  by (auto simp: initialize_user_data_def Let_def split: option.splits)

lemma accept_question_ended:
  assumes "accept_question E U S tr = Inl (out, S', tr')"
  shows "\<exists>new. tr' = tr @ new \<and> list_all (\<lambda>e. quota_call e \<or> is_create_project e) new"
proof (cases "display_name U")
  case (Inl x)
  with assms show ?thesis by (simp add: accept_question_def)
next
  case (Inr name)
  obtain new where new: "trace_of (initialize_user_data E S (tg_id U) name tr) = tr @ new"
    "list_all quota_call new"
    using initialize_calls by blast
  then have weak: "list_all (\<lambda>e. quota_call e \<or> is_create_project e) new"
    by (simp add: list_all_iff)
  show ?thesis
  proof (cases "initialize_user_data E S (tg_id U) name tr")
    case (Err x tr1)
    with assms Inr new weak show ?thesis by (auto simp: accept_question_def)
  next
    case (Ok S1 tr1)
    with new have tr1: "tr1 = tr @ new" by simp
    from assms Inr Ok tr1 weak show ?thesis
      by (auto simp: accept_question_def reply_and_return_def Let_def
               split: option.splits if_splits)
  qed
qed

lemma accept_question_proceeds:
  assumes "accept_question E U S tr = Inr (pid, S2, tr2)"
  shows "\<exists>new uid. tr2 = tr @ new @ [CreateProject uid (message_text U)]
            \<and> list_all quota_call new \<and> project_result E = Some pid"
proof (cases "display_name U")
  case (Inl x)
  with assms show ?thesis by (simp add: accept_question_def)
next
  case (Inr name)
  obtain new where new: "trace_of (initialize_user_data E S (tg_id U) name tr) = tr @ new"
    "list_all quota_call new"
    using initialize_calls by blast
  show ?thesis
  proof (cases "initialize_user_data E S (tg_id U) name tr")
    case (Err x tr1)
    with assms Inr show ?thesis by (auto simp: accept_question_def)
  next
    case (Ok S1 tr1)
    with new have tr1: "tr1 = tr @ new" by simp
    from assms Inr Ok tr1 new(2) show ?thesis
      by (auto simp: accept_question_def reply_and_return_def Let_def
               split: option.splits if_splits)
  qed
qed

subsection \<open>The transcript and the answer message\<close>

lemma special_entries_Nil [simp]: "special_entries [] = []"
  by (simp add: special_entries_def fragments_def)

lemma on_event_messages:
  "on_event E q ev ls tr = Ok ls1 tr1 \<Longrightarrow> messages ls1 = messages ls @ special_entries [ev]"
  by (auto simp: on_event_def special_entries_def fragments_def plain_def Let_def
           split: if_splits list.splits)

lemma special_entries_Cons: "special_entries (ev # evs) = special_entries [ev] @ special_entries evs"
  by (simp add: special_entries_def fragments_def)

lemma consume_messages:
  "consume E q evs ls tr = Ok ls' tr' \<Longrightarrow> messages ls' = messages ls @ special_entries evs"
proof (induction evs arbitrary: ls tr)
  case Nil
  then show ?case by simp
next
  case (Cons ev evs)
  then obtain ls1 tr1 where step: "on_event E q ev ls tr = Ok ls1 tr1"
    and rest: "consume E q evs ls1 tr1 = Ok ls' tr'"
    by (auto split: res.splits)
  from Cons.IH [OF rest] on_event_messages [OF step] show ?case
    by (simp add: special_entries_Cons [of ev evs])
qed

lemma answer_sent_append:
  "answer_sent E q tr (a @ b) \<longleftrightarrow> answer_sent E q tr a \<or> answer_sent E q (tr @ a) b"
  by (simp add: answer_sent_def returned_append)

lemma on_event_message:
  assumes "on_event E q ev ls tr = Ok ls1 tr1" and "message ls1 \<noteq> None"
  shows "\<exists>new. tr1 = tr @ new \<and> (message ls \<noteq> None \<or> answer_sent E q tr new)"
  using assms
  by (auto simp: on_event_def answer_sent_def Let_def split: if_splits list.splits)

lemma on_event_extends:
  "on_event E q ev ls tr = Ok ls1 tr1 \<Longrightarrow> \<exists>new. tr1 = tr @ new"
  by (auto simp: on_event_def Let_def split: if_splits list.splits)

lemma consume_message:
  assumes "consume E q evs ls tr = Ok ls' tr'" and "message ls' \<noteq> None"
  shows "\<exists>new. tr' = tr @ new \<and> (message ls \<noteq> None \<or> answer_sent E q tr new)"
  using assms
proof (induction evs arbitrary: ls tr)
  case Nil
  then show ?case by simp
next
  case (Cons ev evs)
  then obtain ls1 tr1 where step: "on_event E q ev ls tr = Ok ls1 tr1"
    and rest: "consume E q evs ls1 tr1 = Ok ls' tr'"
    by (auto split: res.splits)
  from Cons.IH [OF rest Cons.prems(2)]
  obtain new' where new': "tr' = tr1 @ new'" "message ls1 \<noteq> None \<or> answer_sent E q tr1 new'"
    by blast
  from on_event_extends [OF step] obtain new where new: "tr1 = tr @ new" by blast
  show ?case
  proof (cases "message ls1 \<noteq> None")
    case True
    from on_event_message [OF step True] new
    have "message ls \<noteq> None \<or> answer_sent E q tr new" by auto
    with new new'(1) show ?thesis
      by (auto simp: answer_sent_append)
  next
    case False
    with new'(2) have "answer_sent E q tr1 new'" by simp
    with new new'(1) show ?thesis
      by (auto simp: answer_sent_append)
  qed
qed

subsection \<open>The calls of the streaming part\<close>

lemma answer_raises:
  assumes "answer E q pid tr = Err x tr1"
  shows "\<exists>new. tr1 = tr @ ChatStream pid q # new \<and> list_all (loop_call q) new"
proof (cases "raises E (tr @ [ChatStream pid q])")
  case True
  with assms have "tr1 = tr @ ChatStream pid q # []" by (simp add: answer_def)
  then show ?thesis by (intro exI [of _ "[]"]) simp
next
  case False
  obtain new where new:
    "trace_of (consume E q (stream_events E) initial_loop_state (tr @ [ChatStream pid q]))
       = (tr @ [ChatStream pid q]) @ new" "list_all (loop_call q) new"
    using consume_calls by blast
  show ?thesis
  proof (cases "consume E q (stream_events E) initial_loop_state (tr @ [ChatStream pid q])")
    case (Err y tr2)
    with assms False new show ?thesis by (simp add: answer_def)
  next
    case (Ok ls tr2)
    with assms False new show ?thesis
      by (auto simp: answer_def finish_def Let_def split: if_splits)
  qed
qed

lemma answer_returns:
  assumes "answer E q pid tr = Ok ls1 tr1"
  shows "\<not> stream_breaks E \<and>
         (\<exists>new. list_all (loop_call q) new \<and>
            (tr1 = tr @ ChatStream pid q # new
             \<or> (\<exists>t. tr1 = tr @ ChatStream pid q # new
                          @ [EditText t, UpdateProjectMessages pid (special_entries (stream_events E) @ [assistant t])]
                    \<and> answer_sent E q (tr @ [ChatStream pid q]) new)))"
proof -
  let ?tr0 = "tr @ [ChatStream pid q]"
  from assms have open_ok: "\<not> raises E ?tr0"
    by (auto simp: answer_def Let_def split: if_splits)
  with assms obtain ls tr2 where loop: "consume E q (stream_events E) initial_loop_state ?tr0 = Ok ls tr2"
    and ends: "\<not> stream_breaks E" and fin: "finish E pid ls tr2 = Ok ls1 tr1"
    by (auto simp: answer_def Let_def split: res.splits if_splits)
  obtain new where new: "tr2 = ?tr0 @ new" "list_all (loop_call q) new"
    using consume_calls [of E q "stream_events E" initial_loop_state ?tr0] loop by auto
  have ms: "messages ls = special_entries (stream_events E)"
    using consume_messages [OF loop] by (simp add: initial_loop_state_def)
  show ?thesis
  proof (cases "content_buffer ls \<noteq> [] \<and> message ls \<noteq> None")
    case False
    with fin new ends show ?thesis by (auto simp: finish_def)
  next
    case True
    then have "message ls \<noteq> None" by simp
    from consume_message [OF loop this] new(1)
    have sent: "answer_sent E q ?tr0 new"
      by (auto simp: initial_loop_state_def)
    let ?t = "text_buffer ls @ content_buffer ls"
    show ?thesis
    proof (cases "raises E (tr2 @ [EditText ?t])")
      case True
      with \<open>content_buffer ls \<noteq> [] \<and> message ls \<noteq> None\<close> fin
      have "tr1 = tr @ ChatStream pid q # (new @ [EditText ?t])"
        using new(1) by (auto simp: finish_def Let_def)
      moreover have "list_all (loop_call q) (new @ [EditText ?t])"
        using new(2) by simp
      ultimately show ?thesis using ends by blast
    next
      case False
      with \<open>content_buffer ls \<noteq> [] \<and> message ls \<noteq> None\<close> fin
      have "tr1 = tr @ ChatStream pid q # new
               @ [EditText ?t, UpdateProjectMessages pid (special_entries (stream_events E) @ [assistant ?t])]"
        using new(1) ms by (auto simp: finish_def Let_def)
      with sent new(2) ends show ?thesis by blast
    qed
  qed
qed

lemma generic_failure_not_loop_call: "\<not> loop_call q (ReplyText GENERIC_FAILURE)"
  by (simp add: GENERIC_FAILURE_def STATUS_MARKER_def header_def HEADER_PRE_def)

lemma generic_failure_not_quota_call: "\<not> quota_call (ReplyText GENERIC_FAILURE)"
  by (simp add: GENERIC_FAILURE_def EXHAUSTED_def SYSTEM_ERROR_def)

lemma count_list_none: "list_all P xs \<Longrightarrow> \<not> P x \<Longrightarrow> count_list xs x = 0"
  by (induction xs) auto

lemma loop_call_no_update: "list_all (loop_call q) xs \<Longrightarrow> \<not> list_ex is_update_project xs"
proof (induction xs)
  case Nil
  then show ?case by simp
next
  case (Cons e xs)
  then show ?case by (cases e) auto
qed

lemma quota_call_no_update: "list_all quota_call xs \<Longrightarrow> \<not> list_ex is_update_project xs"
proof (induction xs)
  case Nil
  then show ?case by simp
next
  case (Cons e xs)
  then show ?case by (cases e) auto
qed

lemma quota_call_quiet: "quota_call e \<or> is_create_project e \<Longrightarrow> quiet e"
  by (cases e) (auto simp: quiet_def)

lemma loop_call_quiet: "loop_call q e \<Longrightarrow> quiet e"
  by (cases e) (auto simp: quiet_def)

lemma quiet_created_before_stream: "list_all quiet xs \<Longrightarrow> created_before_stream xs"
  by (induction xs) (auto simp: quiet_def)

lemma created_before_stream_append:
  "list_all quiet g \<Longrightarrow> created_before_stream (g @ CreateProject u q # rest)"
  by (induction g) (auto simp: quiet_def)

lemma quiet_no_update: "list_all quiet xs \<Longrightarrow> filter is_update_project xs = []"
  by (induction xs) (auto simp: quiet_def)

lemma quiet_not_member: "list_all quiet xs \<Longrightarrow> UpdateProjectMessages p ms \<notin> set xs"
  by (induction xs) (auto simp: quiet_def)

lemma quiet_calls_no_update:
  assumes "list_all quiet new"
  shows "created_before_stream new \<and> length (filter is_update_project new) \<le> 1
         \<and> update_last_only E U tr new"
  using assms quiet_created_before_stream quiet_no_update [OF assms] quiet_not_member [OF assms]
  by (auto simp: update_last_only_def)

subsection \<open>Counting edits and replies\<close>

lemma edits_append [simp]: "edits (a @ b) = edits a + edits b"
  by (simp add: edits_def)

lemma replies_append [simp]: "replies (a @ b) = replies a + replies b"
  by (simp add: replies_def)

lemma edits_Nil [simp]: "edits [] = 0"
  by (simp add: edits_def)

lemma edits_Cons [simp]: "edits (e # es) = (if is_edit_text e then 1 else 0) + edits es"
  by (simp add: edits_def)

lemma replies_Nil [simp]: "replies [] = 0"
  by (simp add: replies_def)

lemma replies_Cons [simp]: "replies (e # es) = (if is_reply_text e then 1 else 0) + replies es"
  by (simp add: replies_def)

lemma on_event_replies:
  assumes "event_type ev = CONVERSATION_MESSAGE_DELTA \<longrightarrow> plain (message_content ev)"
  shows "pending_reply (on_event E q ev ls tr) \<le> replies tr + (if message ls = None then 1 else 0)"
  using assms by (auto simp: on_event_def plain_def Let_def)

lemma consume_replies:
  assumes "\<forall>c \<in> set (fragments evs). plain c"
  shows "pending_reply (consume E q evs ls tr) \<le> replies tr + (if message ls = None then 1 else 0)"
  using assms
proof (induction evs arbitrary: ls tr)
  case Nil
  then show ?case by simp
next
  case (Cons ev evs)
  then have ev: "event_type ev = CONVERSATION_MESSAGE_DELTA \<longrightarrow> plain (message_content ev)"
    and evs: "\<forall>c \<in> set (fragments evs). plain c"
    by (auto simp: fragments_Cons)
  show ?case
  proof (cases "on_event E q ev ls tr")
    case (Ok ls1 tr1)
    with on_event_replies [OF ev, of E q ls tr] Cons.IH [OF evs, of ls1 tr1] show ?thesis
      by simp
  next
    case (Err x tr1)
    with on_event_replies [OF ev, of E q ls tr] show ?thesis by simp
  qed
qed

lemma finish_calls:
  "\<exists>new. trace_of (finish E pid ls tr) = tr @ new \<and> replies new = 0
     \<and> edits new \<le> (if content_buffer ls = [] then 0 else 1)"
  by (auto simp: finish_def Let_def)

lemma answer_extends: "\<exists>new. trace_of (answer E q pid tr) = tr @ new"
proof (cases "answer E q pid tr")
  case (Ok ls tr1)
  from answer_returns [OF Ok] Ok show ?thesis by auto
next
  case (Err x tr1)
  from answer_raises [OF Err] Err show ?thesis by auto
qed

lemma answer_edits:
  "30 * edits (trace_of (answer E q pid tr)) \<le> 30 * edits tr + total_fragment_length (stream_events E) + 29"
proof -
  let ?tr0 = "tr @ [ChatStream pid q]"
  let ?r = "consume E q (stream_events E) initial_loop_state ?tr0"
  have e0: "edits ?tr0 = edits tr" by simp
  from consume_edits [of E q "stream_events E" initial_loop_state ?tr0]
  have loop: "30 * edits (trace_of ?r) + buffered ?r \<le> 30 * edits tr + total_fragment_length (stream_events E)"
    by (simp add: initial_loop_state_def)
  show ?thesis
  proof (cases "raises E ?tr0")
    case True
    then show ?thesis by (simp add: answer_def e0)
  next
    case False
    show ?thesis
    proof (cases ?r)
      case (Err x tr2)
      with False loop show ?thesis by (simp add: answer_def)
    next
      case (Ok ls tr2)
      show ?thesis
      proof (cases "stream_breaks E")
        case True
        with False Ok loop show ?thesis by (simp add: answer_def)
      next
        case nb: False
        obtain new where new: "trace_of (finish E pid ls tr2) = tr2 @ new"
          "edits new \<le> (if content_buffer ls = [] then 0 else 1)"
          using finish_calls by blast
        have "trace_of (answer E q pid tr) = tr2 @ new"
          using False Ok nb new(1) by (simp add: answer_def)
        moreover have "30 * edits new \<le> buffered ?r + 29"
          using new(2) Ok by (cases "content_buffer ls") auto
        ultimately show ?thesis using loop Ok by simp
      qed
    qed
  qed
qed

lemma answer_replies:
  assumes "\<forall>c \<in> set (fragments (stream_events E)). plain c"
  shows "replies (trace_of (answer E q pid tr)) \<le> replies tr + 1"
proof -
  let ?tr0 = "tr @ [ChatStream pid q]"
  let ?r = "consume E q (stream_events E) initial_loop_state ?tr0"
  have r0: "replies ?tr0 = replies tr" by simp
  from consume_replies [OF assms, of E q initial_loop_state ?tr0]
  have loop: "pending_reply ?r \<le> replies tr + 1"
    by (simp add: initial_loop_state_def)
  show ?thesis
  proof (cases "raises E ?tr0")
    case True
    then show ?thesis by (simp add: answer_def r0)
  next
    case False
    show ?thesis
    proof (cases ?r)
      case (Err x tr2)
      with False loop show ?thesis by (simp add: answer_def)
    next
      case (Ok ls tr2)
      show ?thesis
      proof (cases "stream_breaks E")
        case True
        with False Ok loop show ?thesis by (simp add: answer_def)
      next
        case nb: False
        obtain new where new: "trace_of (finish E pid ls tr2) = tr2 @ new" "replies new = 0"
          using finish_calls by blast
        have "trace_of (answer E q pid tr) = tr2 @ new"
          using False Ok nb new(1) by (simp add: answer_def)
        with new(2) loop Ok show ?thesis by simp
      qed
    qed
  qed
qed

lemma consume_replies_mono: "replies tr \<le> replies (trace_of (consume E q evs ls tr))"
proof -
  obtain new where "trace_of (consume E q evs ls tr) = tr @ new"
    using consume_calls by blast
  then show ?thesis by simp
qed

lemma consume_first_reply:
  assumes "list_all plain (fragments evs)" and "fragments evs \<noteq> []" and "message ls = None"
  shows "replies tr + 1 \<le> replies (trace_of (consume E q evs ls tr))"
  using assms
proof (induction evs arbitrary: ls tr)
  case Nil
  then show ?case by (simp add: fragments_def)
next
  case (Cons ev evs)
  show ?case
  proof (cases "event_type ev = CONVERSATION_MESSAGE_DELTA")
    case False
    with Cons.prems have "list_all plain (fragments evs)" "fragments evs \<noteq> []"
      by (simp_all add: fragments_Cons)
    from Cons.IH [OF this Cons.prems(3), of tr] False show ?thesis
      by (simp add: on_event_other)
  next
    case True
    with Cons.prems(1) have p: "plain (message_content ev)"
      by (simp add: fragments_Cons)
    let ?tr1 = "tr @ [ReplyText (header q @ content_buffer ls @ message_content ev)]"
    show ?thesis
    proof (cases "raises E ?tr1")
      case r: True
      with True p Cons.prems(3) have "on_event E q ev ls tr = Err ExternalError ?tr1"
        by (simp add: on_event_def plain_def Let_def)
      then show ?thesis by simp
    next
      case r: False
      with True p Cons.prems(3) obtain ls1 where "on_event E q ev ls tr = Ok ls1 ?tr1"
        by (simp add: on_event_def plain_def Let_def)
      then show ?thesis
        using consume_replies_mono [of ?tr1 E q evs ls1] by simp
    qed
  qed
qed

lemma answer_first_reply:
  assumes "list_all plain (fragments (stream_events E))" and "fragments (stream_events E) \<noteq> []"
      and "\<not> raises E (tr @ [ChatStream pid q])"
  shows "replies tr + 1 \<le> replies (trace_of (answer E q pid tr))"
proof -
  let ?tr0 = "tr @ [ChatStream pid q]"
  let ?r = "consume E q (stream_events E) initial_loop_state ?tr0"
  from consume_first_reply [OF assms(1,2), of initial_loop_state ?tr0 E q]
  have loop: "replies tr + 1 \<le> replies (trace_of ?r)"
    by (simp add: initial_loop_state_def)
  show ?thesis
  proof (cases ?r)
    case (Err x tr2)
    with assms(3) loop show ?thesis by (simp add: answer_def)
  next
    case (Ok ls tr2)
    obtain new where "trace_of (finish E pid ls tr2) = tr2 @ new"
      using finish_calls by blast
    with assms(3) Ok loop show ?thesis
      by (cases "stream_breaks E") (simp_all add: answer_def)
  qed
qed

subsection \<open>The text of the answer message\<close>

lemma normalise_absorb: "normalise (normalise a @ b) = normalise (a @ b)"
  unfolding normalise_def
  by (rule replace_str_absorb) (simp_all add: NEWLINE_def LINE_BREAK_def)

lemma normalise_idem: "normalise (normalise a) = normalise a"
  using normalise_absorb [of a "[]"] by simp

lemma on_event_content_only:
  "event_type ev = CONVERSATION_MESSAGE_DELTA \<Longrightarrow>
   on_event E q ev ls tr = on_event E q (delta (message_content ev)) ls tr"
  by (simp add: on_event_def delta_def)

lemma consume_filter_delta:
  "consume E q (filter (\<lambda>ev. event_type ev = CONVERSATION_MESSAGE_DELTA) evs) ls tr
   = consume E q evs ls tr"
  by (induction evs arbitrary: ls tr) (simp_all add: on_event_other split: res.splits)

lemma consume_fragments:
  "consume E q evs ls tr = consume E q (map delta (fragments evs)) ls tr"
proof (induction evs arbitrary: ls tr)
  case Nil
  then show ?case by (simp add: fragments_def)
next
  case (Cons ev evs)
  show ?case
  proof (cases "event_type ev = CONVERSATION_MESSAGE_DELTA")
    case True
    then show ?thesis
      using Cons.IH on_event_content_only [OF True, of E q ls tr]
      by (simp add: fragments_Cons split: res.splits)
  next
    case False
    then show ?thesis
      using Cons.IH by (simp add: fragments_Cons on_event_other)
  qed
qed

lemma on_event_plain_sent:
  assumes "on_event E q (delta c) ls tr = Ok ls1 tr1" and "message ls \<noteq> None" and "plain c"
  shows "message ls1 \<noteq> None
       \<and> (\<forall>x. normalise (text_buffer ls1 @ content_buffer ls1 @ x)
               = normalise (text_buffer ls @ content_buffer ls @ c @ x))
       \<and> (tr1 = tr \<and> text_buffer ls1 = text_buffer ls \<and> content_buffer ls1 = content_buffer ls @ c
          \<or> tr1 = tr @ [EditText (text_buffer ls1)] \<and> normalise (text_buffer ls1) = text_buffer ls1
            \<and> content_buffer ls1 = [])"
proof (cases "BUFFER_SIZE \<le> length (content_buffer ls @ c)")
  case True
  with assms have ls1: "ls1 = ls\<lparr>text_buffer := normalise (text_buffer ls @ content_buffer ls @ c),
                                   content_buffer := []\<rparr>"
    and tr1: "tr1 = tr @ [EditText (normalise (text_buffer ls @ content_buffer ls @ c))]"
    by (auto simp: on_event_def delta_def plain_def normalise_def Let_def)
  have "\<And>x. normalise (normalise (text_buffer ls @ content_buffer ls @ c) @ x)
            = normalise (text_buffer ls @ content_buffer ls @ c @ x)"
    using normalise_absorb [of "text_buffer ls @ content_buffer ls @ c"] by simp
  with ls1 tr1 assms(2) show ?thesis
    by (simp add: normalise_idem)
next
  case False
  with assms have "ls1 = ls\<lparr>content_buffer := content_buffer ls @ c\<rparr>" and "tr1 = tr"
    by (auto simp: on_event_def delta_def plain_def Let_def)
  with assms(2) show ?thesis by simp
qed

lemma consume_plain_sent:
  assumes "consume E q (map delta fs) ls tr = Ok ls' tr'"
      and "message ls \<noteq> None" and "\<forall>c \<in> set fs. plain c"
  shows "(\<forall>x. normalise (text_buffer ls' @ content_buffer ls' @ x)
               = normalise (text_buffer ls @ content_buffer ls @ concat fs @ x))
       \<and> (tr' = tr \<and> text_buffer ls' = text_buffer ls
            \<and> content_buffer ls' = content_buffer ls @ concat fs
          \<or> tr' \<noteq> [] \<and> last tr' = EditText (text_buffer ls')
            \<and> normalise (text_buffer ls') = text_buffer ls')"
  using assms
proof (induction fs arbitrary: ls tr)
  case Nil
  then show ?case by simp
next
  case (Cons c fs)
  from Cons.prems(1) obtain ls1 tr1 where step: "on_event E q (delta c) ls tr = Ok ls1 tr1"
    and rest: "consume E q (map delta fs) ls1 tr1 = Ok ls' tr'"
    by (auto split: res.splits)
  from Cons.prems(3) have pc: "plain c" and pfs: "\<forall>c \<in> set fs. plain c"
    by simp_all
  from on_event_plain_sent [OF step Cons.prems(2) pc]
  have m1: "message ls1 \<noteq> None"
    and n1: "\<And>x. normalise (text_buffer ls1 @ content_buffer ls1 @ x)
               = normalise (text_buffer ls @ content_buffer ls @ c @ x)"
    and s1: "tr1 = tr \<and> text_buffer ls1 = text_buffer ls \<and> content_buffer ls1 = content_buffer ls @ c
          \<or> tr1 = tr @ [EditText (text_buffer ls1)] \<and> normalise (text_buffer ls1) = text_buffer ls1
            \<and> content_buffer ls1 = []"
    by blast+
  from Cons.IH [OF rest m1 pfs]
  have n2: "\<And>x. normalise (text_buffer ls' @ content_buffer ls' @ x)
               = normalise (text_buffer ls1 @ content_buffer ls1 @ concat fs @ x)"
    and s2: "tr' = tr1 \<and> text_buffer ls' = text_buffer ls1
            \<and> content_buffer ls' = content_buffer ls1 @ concat fs
          \<or> tr' \<noteq> [] \<and> last tr' = EditText (text_buffer ls')
            \<and> normalise (text_buffer ls') = text_buffer ls'"
    by blast+
  have "normalise (text_buffer ls' @ content_buffer ls' @ x)
               = normalise (text_buffer ls @ content_buffer ls @ concat (c # fs) @ x)" for x
    using n2 [of x] n1 [of "concat fs @ x"] by simp
  moreover have "tr' = tr \<and> text_buffer ls' = text_buffer ls
            \<and> content_buffer ls' = content_buffer ls @ concat (c # fs)
          \<or> tr' \<noteq> [] \<and> last tr' = EditText (text_buffer ls')
            \<and> normalise (text_buffer ls') = text_buffer ls'"
    using s1 s2 by auto
  ultimately show ?case by blast
qed

lemma plain_Nil: "plain []"
  by (simp add: plain_def is_image_def is_status_def IMG_OPEN_def STATUS_MARKER_def)

subsection \<open>A status-marker fragment in the stream\<close>

lemma consume_append:
  "consume E q (a @ b) ls tr =
     (case consume E q a ls tr of Err x tr1 \<Rightarrow> Err x tr1 | Ok ls1 tr1 \<Rightarrow> consume E q b ls1 tr1)"
  by (induction a arbitrary: ls tr) (simp_all split: res.splits)

lemma on_event_status:
  "is_status c \<Longrightarrow>
   on_event E q (delta c) ls tr =
     (if raises E (tr @ [ReplyText STATUS_MARKER])
      then Err ExternalError (tr @ [ReplyText STATUS_MARKER])
      else Ok (ls\<lparr>messages := messages ls @ [assistant c]\<rparr>) (tr @ [ReplyText STATUS_MARKER]))"
  by (simp add: on_event_def delta_def status_not_image Let_def)

text \<open>
  The buffers and the message handle after an event depend on the event and on what they
  were before, not on the transcript, the history or the environment.
\<close>

lemma on_event_buffers:
  assumes "on_event E q ev ls tr = Ok ls' tr'" and "on_event E2 q ev ls2 tr2 = Ok ls2' tr2'"
      and "content_buffer ls = content_buffer ls2" and "text_buffer ls = text_buffer ls2"
      and "message ls = message ls2"
  shows "content_buffer ls' = content_buffer ls2' \<and> text_buffer ls' = text_buffer ls2'
       \<and> message ls' = message ls2'"
  using assms
  by (auto simp: on_event_def Let_def split: if_splits list.splits)

lemma consume_buffers:
  assumes "consume E q evs ls tr = Ok ls' tr'" and "consume E2 q evs ls2 tr2 = Ok ls2' tr2'"
      and "content_buffer ls = content_buffer ls2" and "text_buffer ls = text_buffer ls2"
      and "message ls = message ls2"
  shows "content_buffer ls' = content_buffer ls2' \<and> text_buffer ls' = text_buffer ls2'
       \<and> message ls' = message ls2'"
  using assms
proof (induction evs arbitrary: ls tr ls2 tr2)
  case Nil
  then show ?case by simp
next
  case (Cons ev evs)
  from Cons.prems(1) obtain l1 t1 where a: "on_event E q ev ls tr = Ok l1 t1"
    and a': "consume E q evs l1 t1 = Ok ls' tr'"
    by (auto split: res.splits)
  from Cons.prems(2) obtain l2 t2 where b: "on_event E2 q ev ls2 tr2 = Ok l2 t2"
    and b': "consume E2 q evs l2 t2 = Ok ls2' tr2'"
    by (auto split: res.splits)
  from on_event_buffers [OF a b Cons.prems(3,4,5)]
  have "content_buffer l1 = content_buffer l2" "text_buffer l1 = text_buffer l2"
    "message l1 = message l2" by simp_all
  from Cons.IH [OF a' b' this] show ?case .
qed

lemma special_entries_status:
  "is_status c \<Longrightarrow> assistant c \<in> set (special_entries (pre @ delta c # post))"
  by (simp add: special_entries_def fragments_def plain_def delta_def)

subsection \<open>Concrete runs\<close>

lemma replicate_numeral_Cons: "replicate (numeral k) x = x # replicate (pred_numeral k) x"
  by (simp add: numeral_eq_Suc)

lemmas run_defs = accept_question_def display_name_def initialize_user_data_def
  stream_reply_def answer_def on_event_def finish_def initial_loop_state_def reply_and_return_def
  delta_def is_image_def is_status_def endswith_def header_def BUFFER_SIZE_def Let_def

lemmas string_defs = IMG_OPEN_def IMG_MID_def IMG_CLOSE_def LINE_BREAK_def NEWLINE_def SPACE_def
  STATUS_MARKER_def HEADER_PRE_def HEADER_POST_def

lemma accept_one: "accept_question E_one_fragment U_msg S_waiting [] =
   Inr ([0x70], S_waiting\<lparr>waiting_for_question := Some False\<rparr>, quota_calls)"
  by (simp add: run_defs string_defs E_one_fragment_def fixture_defs quota_calls_def)

lemma answer_one:
  "answer E_one_fragment [0x71] [0x70] tr =
     Ok \<lparr>messages = [assistant (header [0x71] @ [0x61] @ LINE_BREAK @ [0x62] @ [0x61] @ LINE_BREAK @ [0x62])],
         text_buffer = header [0x71] @ [0x61] @ LINE_BREAK @ [0x62] @ [0x61] @ LINE_BREAK @ [0x62],
         message = Some (), content_buffer = [0x61] @ LINE_BREAK @ [0x62]\<rparr>
        (tr @ [ChatStream [0x70] [0x71],
               ReplyText (header [0x71] @ [0x61] @ LINE_BREAK @ [0x62]),
               EditText (header [0x71] @ [0x61] @ LINE_BREAK @ [0x62] @ [0x61] @ LINE_BREAK @ [0x62]),
               UpdateProjectMessages [0x70]
                 [assistant (header [0x71] @ [0x61] @ LINE_BREAK @ [0x62] @ [0x61] @ LINE_BREAK @ [0x62])]])"
  by (simp add: run_defs string_defs E_one_fragment_def fixture_defs)

lemma consume_two:
  "consume E_two_fragments [0x71] (stream_events E_two_fragments) initial_loop_state [] =
     Ok \<lparr>messages = [], text_buffer = header [0x71] @ replicate 26 0x78 @ NEWLINE,
         message = Some (), content_buffer = []\<rparr>
        [ReplyText (header [0x71]), EditText (header [0x71] @ replicate 26 0x78 @ NEWLINE)]"
  by (simp add: run_defs string_defs E_two_fragments_def fixture_defs replicate_numeral_Cons)

lemma answer_long:
  "answer E_long_fragment [0x71] [0x70] [] =
     Ok \<lparr>messages = [assistant (header [0x71] @ replicate 90 0x78 @ replicate 90 0x78)],
         text_buffer = header [0x71] @ replicate 90 0x78 @ replicate 90 0x78,
         message = Some (), content_buffer = replicate 90 0x78\<rparr>
        [ChatStream [0x70] [0x71],
         ReplyText (header [0x71] @ replicate 90 0x78),
         EditText (header [0x71] @ replicate 90 0x78 @ replicate 90 0x78),
         UpdateProjectMessages [0x70] [assistant (header [0x71] @ replicate 90 0x78 @ replicate 90 0x78)]]"
  by (simp add: run_defs string_defs E_long_fragment_def fixture_defs replicate_numeral_Cons)

lemma answer_broken:
  "answer E_broken_stream [0x71] [0x70] tr =
     Err ExternalError (tr @ [ChatStream [0x70] [0x71], ReplyText (header [0x71] @ [0x61])])"
  by (simp add: run_defs string_defs E_broken_stream_def fixture_defs)

lemma accept_broken: "accept_question E_broken_stream U_msg S_waiting [] =
   Inr ([0x70], S_waiting\<lparr>waiting_for_question := Some False\<rparr>, quota_calls)"
  by (simp add: run_defs string_defs E_broken_stream_def fixture_defs quota_calls_def)

lemma handle_one:
  "handle_message E_one_fragment U_msg S_waiting [] =
     (Returned, S_waiting\<lparr>waiting_for_question := Some False\<rparr>,
      quota_calls @ [ChatStream [0x70] [0x71],
               ReplyText (header [0x71] @ [0x61] @ LINE_BREAK @ [0x62]),
               EditText (header [0x71] @ [0x61] @ LINE_BREAK @ [0x62] @ [0x61] @ LINE_BREAK @ [0x62]),
               UpdateProjectMessages [0x70]
                 [assistant (header [0x71] @ [0x61] @ LINE_BREAK @ [0x62] @ [0x61] @ LINE_BREAK @ [0x62])]])"
  using accept_one answer_one [of quota_calls]
  by (simp add: handle_message_def stream_reply_def S_waiting_def U_msg_def)

lemma answer_late:
  "answer E_late_fragment [0x71] [0x70] tr =
     Ok \<lparr>messages = [assistant (header [0x71] @ [0x61] @ LINE_BREAK @ [0x62])],
         text_buffer = header [0x71] @ [0x61] @ LINE_BREAK @ [0x62],
         message = Some (), content_buffer = [0x61] @ LINE_BREAK @ [0x62]\<rparr>
        (tr @ [ChatStream [0x70] [0x71],
               ReplyText (header [0x71]),
               EditText (header [0x71] @ [0x61] @ LINE_BREAK @ [0x62]),
               UpdateProjectMessages [0x70]
                 [assistant (header [0x71] @ [0x61] @ LINE_BREAK @ [0x62])]])"
  by (simp add: run_defs string_defs E_late_fragment_def fixture_defs)

lemma consume_status_run:
  "consume E_base [0x71] ([delta [0x61]] @ delta (STATUS_MARKER @ [0x21]) # [delta [0x62]])
       initial_loop_state [] =
     Ok \<lparr>messages = [assistant (STATUS_MARKER @ [0x21])], text_buffer = header [0x71] @ [0x61],
         message = Some (), content_buffer = [0x61, 0x62]\<rparr>
        [ReplyText (header [0x71] @ [0x61]), ReplyText STATUS_MARKER]"
  by (simp add: run_defs string_defs fixture_defs)

lemma consume_plain_run:
  "consume E_base [0x71] ([delta [0x61]] @ [delta [0x62]]) initial_loop_state [] =
     Ok \<lparr>messages = [], text_buffer = header [0x71] @ [0x61],
         message = Some (), content_buffer = [0x61, 0x62]\<rparr>
        [ReplyText (header [0x71] @ [0x61])]"
  by (simp add: run_defs string_defs fixture_defs)

lemma accept_status: "accept_question E_status_fragment U_msg S_waiting [] =
   Inr ([0x70], S_waiting\<lparr>waiting_for_question := Some False\<rparr>, quota_calls)"
  by (simp add: run_defs string_defs E_status_fragment_def fixture_defs quota_calls_def)

lemma answer_status:
  "answer E_status_fragment [0x71] [0x70] tr =
     Ok \<lparr>messages = [assistant (STATUS_MARKER @ [0x21])], text_buffer = [],
         message = None, content_buffer = []\<rparr>
        (tr @ [ChatStream [0x70] [0x71], ReplyText STATUS_MARKER])"
  by (simp add: run_defs E_status_fragment_def fixture_defs STATUS_MARKER_def IMG_OPEN_def)

section \<open>The claims\<close>

subsection \<open>C1: an exhausted quota blocks the question\<close>

text \<open>
  C1. Whenever the message handler runs while a question is awaited and the refresh of the
  quota returns a remaining allowance \<open>daily_limit - used_count \<le> 0\<close>, the handler
  issues, after the three calls of the refresh, exactly one more call, the reply with the
  exhaustion notice, and ends there (it returns, or the reply itself raises): no project
  is created and no chat stream is opened.
\<close>

theorem C1_exhausted_quota_blocks_question:
  assumes "waiting_for_question S = Some True"
      and "display_name U = Inr name"
      and "initialize_user_data E S (tg_id U) name tr = Ok S1 tr1"
      and "user_result E = Some uid"
      and "daily_limit_result E - used_count_result E \<le> 0"
  shows "case handle_message E U S tr of (out, S', tr') \<Rightarrow>
            tr' = tr @ refresh_calls E U name uid @ [ReplyText EXHAUSTED]
          \<and> out = (if raises E tr' then Raised ExternalError else Returned)
          \<and> \<not> list_ex is_create_project (issued tr tr')
          \<and> \<not> list_ex is_chat_stream (issued tr tr')"
proof -
  from initialize_refreshed [OF assms(3,4)]
  have tr1: "tr1 = tr @ refresh_calls E U name uid"
    and cnt: "daily_count S1 = Some (daily_limit_result E - used_count_result E)"
    by (simp_all add: refresh_calls_def)
  have "handle_message E U S tr = reply_and_return E EXHAUSTED S1 tr1"
    using assms cnt by (simp add: handle_message_def accept_question_def)
  then show ?thesis
    by (simp add: reply_and_return_def tr1 issued_def refresh_calls_def Let_def)
qed

theorem C1_exhausted_quota_blocks_question_witness:
  "waiting_for_question S_waiting = Some True
   \<and> display_name U_msg = Inr [0x41, 0x20, 0x42]
   \<and> user_result E_exhausted = Some [0x75]
   \<and> daily_limit_result E_exhausted - used_count_result E_exhausted \<le> 0
   \<and> (case handle_message E_exhausted U_msg S_waiting [] of (out, S', tr') \<Rightarrow>
          tr' = [GetOrCreateUser [0x31] [0x41, 0x20, 0x42], GetUserDailyLimit [0x75],
                 GetTodayUsageCount [0x75] [0x64], ReplyText EXHAUSTED]
        \<and> out = Returned)"
proof -
  have w: "waiting_for_question S_waiting = Some True"
    by (simp add: S_waiting_def)
  have i: "initialize_user_data E_exhausted S_waiting (tg_id U_msg) [0x41, 0x20, 0x42] [] =
     Ok (S_waiting\<lparr>daily_count := Some 0\<rparr>)
        [GetOrCreateUser [0x31] [0x41, 0x20, 0x42], GetUserDailyLimit [0x75],
         GetTodayUsageCount [0x75] [0x64]]"
    using init_exhausted by (simp add: U_msg_def)
  have u: "user_result E_exhausted = Some [0x75]"
    by (simp add: E_exhausted_def E_base_def)
  have q: "daily_limit_result E_exhausted - used_count_result E_exhausted \<le> 0"
    by (simp add: E_exhausted_def E_base_def)
  from C1_exhausted_quota_blocks_question [OF w display_name_U_msg i u q]
  have "case handle_message E_exhausted U_msg S_waiting [] of (out, S', tr') \<Rightarrow>
          tr' = [GetOrCreateUser [0x31] [0x41, 0x20, 0x42], GetUserDailyLimit [0x75],
                 GetTodayUsageCount [0x75] [0x64], ReplyText EXHAUSTED]
        \<and> out = Returned"
    by (auto simp: refresh_calls_def E_exhausted_def E_base_def U_msg_def split: prod.splits)
  with w display_name_U_msg u q show ?thesis
    by simp
qed

subsection \<open>C2: after the exhaustion notice the session still awaits a question\<close>

text \<open>
  C2, as amended. When a text message arrives while a question is awaited and the
  refreshed quota is exhausted (remaining allowance \<open>\<le> 0\<close>), the last call of the handler
  is the reply with the exhaustion notice, the message is not taken as a question, and the
  session keeps awaiting a question: \<open>waiting_for_question\<close> stays true; only the four
  quota fields of the session are refreshed. (Line 98, which clears the flag, comes after
  the \<open>return\<close> of line 95.)
\<close>

theorem C2_exhausted_quota_keeps_awaiting:
  assumes "waiting_for_question S = Some True"
      and "display_name U = Inr name"
      and "initialize_user_data E S (tg_id U) name tr = Ok S1 tr1"
      and "user_result E = Some uid"
      and "daily_limit_result E - used_count_result E \<le> 0"
  shows "case handle_message E U S tr of (out, S', tr') \<Rightarrow>
            last tr' = ReplyText EXHAUSTED
          \<and> waiting_for_question S' = Some True
          \<and> S' = S\<lparr>daily_limit := Some (daily_limit_result E),
                    daily_count := Some (daily_limit_result E - used_count_result E),
                    last_date := Some (today E), user_id := Some uid\<rparr>"
proof -
  from initialize_refreshed [OF assms(3,4)]
  have S1: "S1 = S\<lparr>daily_limit := Some (daily_limit_result E),
                    daily_count := Some (daily_limit_result E - used_count_result E),
                    last_date := Some (today E), user_id := Some uid\<rparr>"
    by simp
  then have "handle_message E U S tr = reply_and_return E EXHAUSTED S1 tr1"
    using assms by (simp add: handle_message_def accept_question_def)
  with S1 assms(1) show ?thesis
    by (simp add: reply_and_return_def Let_def)
qed

theorem C2_exhausted_quota_keeps_awaiting_witness:
  "waiting_for_question S_waiting = Some True
   \<and> display_name U_msg = Inr [0x41, 0x20, 0x42]
   \<and> user_result E_exhausted = Some [0x75]
   \<and> daily_limit_result E_exhausted - used_count_result E_exhausted \<le> 0
   \<and> (case handle_message E_exhausted U_msg S_waiting [] of (out, S', tr') \<Rightarrow>
          last tr' = ReplyText EXHAUSTED
        \<and> waiting_for_question S' = Some True
        \<and> S' = S_waiting\<lparr>daily_count := Some 0\<rparr>)"
proof -
  have w: "waiting_for_question S_waiting = Some True"
    by (simp add: S_waiting_def)
  have i: "initialize_user_data E_exhausted S_waiting (tg_id U_msg) [0x41, 0x20, 0x42] [] =
     Ok (S_waiting\<lparr>daily_count := Some 0\<rparr>)
        [GetOrCreateUser [0x31] [0x41, 0x20, 0x42], GetUserDailyLimit [0x75],
         GetTodayUsageCount [0x75] [0x64]]"
    using init_exhausted by (simp add: U_msg_def)
  have u: "user_result E_exhausted = Some [0x75]"
    by (simp add: E_exhausted_def E_base_def)
  have q: "daily_limit_result E_exhausted - used_count_result E_exhausted \<le> 0"
    by (simp add: E_exhausted_def E_base_def)
  from C2_exhausted_quota_keeps_awaiting [OF w display_name_U_msg i u q]
  have "case handle_message E_exhausted U_msg S_waiting [] of (out, S', tr') \<Rightarrow>
          last tr' = ReplyText EXHAUSTED
        \<and> waiting_for_question S' = Some True
        \<and> S' = S_waiting\<lparr>daily_count := Some 0\<rparr>"
    by (auto simp: E_exhausted_def E_base_def S_waiting_def split: prod.splits)
  with w display_name_U_msg u q show ?thesis
    by simp
qed

text \<open>
  The claim as stated (the session reverts to idle) fails: the user who has used the three
  questions of the day sends a text while a question is awaited; the handler replies with
  the notice and returns, and \<open>waiting_for_question\<close> is still true.
\<close>

theorem C2_counterexample_session_not_reverted:
  "handle_message E_exhausted U_msg S_waiting [] =
     (Returned, S_waiting\<lparr>daily_count := Some 0\<rparr>,
      [GetOrCreateUser [0x31] [0x41, 0x20, 0x42], GetUserDailyLimit [0x75],
       GetTodayUsageCount [0x75] [0x64], ReplyText EXHAUSTED])
   \<and> waiting_for_question (S_waiting\<lparr>daily_count := Some 0\<rparr>) = Some True"
  by (simp add: handle_message_def accept_question_def display_name_def initialize_user_data_def
        reply_and_return_def fixture_defs SPACE_def Let_def)

subsection \<open>C3: the text shown at the end of a stream of plain fragments\<close>

text \<open>
  C3 (for every stream without image-formatted and status-marker fragments, the final
  displayed text of the edited message is the concatenation of all fragments with every
  \<open>"<br><br>"\<close> replaced by a newline) does not hold on the code, by two slips of the loop.
  After the initial send (lines 135 to 138) \<open>content_buffer\<close> is not cleared, although it
  is cleared after every edit (line 146), so the first fragment is appended to the text a
  second time at the next edit. And the final flush (line 150) appends what is left in
  \<open>content_buffer\<close> without the replacement that line 141 applies to every mid-stream edit.

  For the stream with the single fragment \<open>"a<br><br>b"\<close> the claimed text is \<open>"a\nb"\<close>; the
  last edit shows, after the header, the fragment twice with both markers left in. For the
  stream with an empty fragment followed by \<open>"a<br><br>b"\<close> only the second slip is met:
  the last edit shows, after the header, the fragment once with its marker left in. In
  both runs this unreplaced text is what is handed to the project update.
\<close>

theorem C3_fragment_shown_twice_markers_unreplaced:
  "issued [] (trace_of (answer E_one_fragment [0x71] [0x70] [])) =
     [ChatStream [0x70] [0x71],
      ReplyText (header [0x71] @ [0x61] @ LINE_BREAK @ [0x62]),
      EditText (header [0x71] @ [0x61] @ LINE_BREAK @ [0x62] @ [0x61] @ LINE_BREAK @ [0x62]),
      UpdateProjectMessages [0x70]
        [assistant (header [0x71] @ [0x61] @ LINE_BREAK @ [0x62] @ [0x61] @ LINE_BREAK @ [0x62])]]
   \<and> list_all plain (fragments (stream_events E_one_fragment))
   \<and> replace_str (concat (fragments (stream_events E_one_fragment))) LINE_BREAK NEWLINE
       = [0x61, 0xA, 0x62]
   \<and> issued [] (trace_of (answer E_late_fragment [0x71] [0x70] [])) =
     [ChatStream [0x70] [0x71],
      ReplyText (header [0x71]),
      EditText (header [0x71] @ [0x61] @ LINE_BREAK @ [0x62]),
      UpdateProjectMessages [0x70] [assistant (header [0x71] @ [0x61] @ LINE_BREAK @ [0x62])]]
   \<and> list_all plain (fragments (stream_events E_late_fragment))
   \<and> replace_str (concat (fragments (stream_events E_late_fragment))) LINE_BREAK NEWLINE
       = [0x61, 0xA, 0x62]
   \<and> [0x61] @ LINE_BREAK @ [0x62] @ [0x61] @ LINE_BREAK @ [0x62] \<noteq> [0x61, 0xA, 0x62]
   \<and> [0x61] @ LINE_BREAK @ [0x62] \<noteq> [0x61, 0xA, 0x62]"
proof -
  have "issued [] (trace_of (answer E_one_fragment [0x71] [0x70] [])) =
     [ChatStream [0x70] [0x71],
      ReplyText (header [0x71] @ [0x61] @ LINE_BREAK @ [0x62]),
      EditText (header [0x71] @ [0x61] @ LINE_BREAK @ [0x62] @ [0x61] @ LINE_BREAK @ [0x62]),
      UpdateProjectMessages [0x70]
        [assistant (header [0x71] @ [0x61] @ LINE_BREAK @ [0x62] @ [0x61] @ LINE_BREAK @ [0x62])]]"
    by (simp add: answer_one issued_def)
  moreover have "list_all plain (fragments (stream_events E_one_fragment))"
    by (simp add: fragments_def E_one_fragment_def delta_def plain_def is_image_def is_status_def
          string_defs)
  moreover have "replace_str (concat (fragments (stream_events E_one_fragment))) LINE_BREAK NEWLINE
       = [0x61, 0xA, 0x62]"
    by (simp add: fragments_def E_one_fragment_def delta_def string_defs)
  moreover have "issued [] (trace_of (answer E_late_fragment [0x71] [0x70] [])) =
     [ChatStream [0x70] [0x71],
      ReplyText (header [0x71]),
      EditText (header [0x71] @ [0x61] @ LINE_BREAK @ [0x62]),
      UpdateProjectMessages [0x70] [assistant (header [0x71] @ [0x61] @ LINE_BREAK @ [0x62])]]"
    by (simp add: answer_late issued_def)
  moreover have "list_all plain (fragments (stream_events E_late_fragment))"
    by (simp add: fragments_def E_late_fragment_def delta_def plain_def is_image_def is_status_def
          string_defs)
  moreover have "replace_str (concat (fragments (stream_events E_late_fragment))) LINE_BREAK NEWLINE
       = [0x61, 0xA, 0x62]"
    by (simp add: fragments_def E_late_fragment_def delta_def string_defs)
  moreover have "[0x61] @ LINE_BREAK @ [0x62] @ [0x61] @ LINE_BREAK @ [0x62] \<noteq> [0x61, 0xA, (0x62::nat)]"
    by (simp add: string_defs)
  moreover have "[0x61] @ LINE_BREAK @ [0x62] \<noteq> [0x61, 0xA, (0x62::nat)]"
    by (simp add: string_defs)
  ultimately show ?thesis by simp
qed

text \<open>
  Neither slip depends on the input above. Whenever the stream consists of one non-empty
  plain fragment and the initial send returns, the final flush shows the fragment twice.
\<close>

lemma first_fragment_twice:
  assumes "plain c" and "c \<noteq> []" and "\<not> raises E (tr @ [ReplyText (header q @ c)])"
  shows "\<exists>ls tr1. consume E q [delta c] initial_loop_state tr = Ok ls tr1
          \<and> trace_of (finish E pid ls tr1) =
              tr @ [ReplyText (header q @ c), EditText (header q @ c @ c)]
                 @ (if raises E (tr @ [ReplyText (header q @ c), EditText (header q @ c @ c)]) then []
                    else [UpdateProjectMessages pid [assistant (header q @ c @ c)]])"
  using assms
  by (simp add: on_event_def delta_def plain_def initial_loop_state_def finish_def Let_def)

text \<open>Whenever the final flush edits the message, it appends the buffer as it is.\<close>

lemma final_flush_unreplaced:
  assumes "content_buffer ls \<noteq> []" and "message ls \<noteq> None"
  shows "\<exists>rest. trace_of (finish E pid ls tr) = tr @ EditText (text_buffer ls @ content_buffer ls) # rest"
  using assms by (simp add: finish_def Let_def)

text \<open>
  Where neither slip is met (the first fragment is empty and nothing is left for the final
  flush), the last edit shows the header followed by the concatenation of the fragments,
  with every \<open>"<br><br>"\<close> replaced by a newline.
\<close>

lemma plain_stream_last_edit:
  assumes "consume E q evs initial_loop_state tr = Ok ls tr'"
      and "fragments evs = [] # fs"
      and "list_all plain fs"
      and "content_buffer ls = []"
      and "concat fs \<noteq> []"
  shows "last tr' = EditText (replace_str (header q @ concat fs) LINE_BREAK NEWLINE)
       \<and> text_buffer ls = replace_str (header q @ concat fs) LINE_BREAK NEWLINE
       \<and> finish E pid ls tr' = Ok ls tr'"
proof -
  let ?ls0 = "initial_loop_state\<lparr>content_buffer := [], message := Some (), text_buffer := header q\<rparr>"
  let ?tr0 = "tr @ [ReplyText (header q)]"
  from assms(1) have run: "consume E q (delta [] # map delta fs) initial_loop_state tr = Ok ls tr'"
    using consume_fragments [of E q evs initial_loop_state tr] assms(2) by simp
  have first: "on_event E q (delta []) initial_loop_state tr =
                 (if raises E ?tr0 then Err ExternalError ?tr0 else Ok ?ls0 ?tr0)"
    using plain_Nil by (simp add: on_event_def delta_def plain_def initial_loop_state_def Let_def)
  with run have rest: "consume E q (map delta fs) ?ls0 ?tr0 = Ok ls tr'"
    by (simp split: if_splits)
  have "message ?ls0 \<noteq> None" by simp
  from consume_plain_sent [OF rest this] assms(3)
  have n: "\<And>x. normalise (text_buffer ls @ content_buffer ls @ x)
               = normalise (text_buffer ?ls0 @ content_buffer ?ls0 @ concat fs @ x)"
    and s: "tr' = ?tr0 \<and> text_buffer ls = text_buffer ?ls0
            \<and> content_buffer ls = content_buffer ?ls0 @ concat fs
          \<or> tr' \<noteq> [] \<and> last tr' = EditText (text_buffer ls)
            \<and> normalise (text_buffer ls) = text_buffer ls"
    by (auto simp: list_all_iff)
  from s assms(4,5) have e: "last tr' = EditText (text_buffer ls)"
    and stable: "normalise (text_buffer ls) = text_buffer ls"
    by auto
  from n [of "[]"] assms(4) have "normalise (text_buffer ls) = normalise (header q @ concat fs)"
    by simp
  with stable have "text_buffer ls = normalise (header q @ concat fs)" by simp
  with e assms(4) show ?thesis
    by (simp add: normalise_def finish_def)
qed

subsection \<open>C4: the project is created first and updated at most once\<close>

text \<open>
  C4. In every run of the message handler, whatever the outside answers: the calls it
  issues extend the history; a project is created before the chat stream is opened; at
  most one \<open>update_project_messages\<close> call is issued; and if one is issued, it is the last
  call of the handler, directly after the final edit of the answer message, in a run in
  which the stream ended without raising; it is for the project that was created; its
  message list is the full accumulated list, the entries of all image and status
  fragments of the stream followed by the entry with the text of the final edit; and
  before it a send of the answer message returned. What the backend stores on that call
  is outside the program.
\<close>

theorem C4_project_created_first_updated_once:
  "case handle_message E U S tr of (out, S', tr') \<Rightarrow>
      tr' = tr @ issued tr tr'
    \<and> created_before_stream (issued tr tr')
    \<and> length (filter is_update_project (issued tr tr')) \<le> 1
    \<and> (\<forall>p ms. UpdateProjectMessages p ms \<in> set (issued tr tr') \<longrightarrow>
         (\<exists>pre t. issued tr tr' = pre @ [EditText t, UpdateProjectMessages p ms]
            \<and> ms = special_entries (stream_events E) @ [assistant t]
            \<and> project_result E = Some p \<and> \<not> stream_breaks E
            \<and> answer_sent E (message_text U) tr pre))"
proof -
  have "\<exists>new. snd (snd (handle_message E U S tr)) = tr @ new
          \<and> created_before_stream new \<and> length (filter is_update_project new) \<le> 1
          \<and> update_last_only E U tr new"
  proof (cases "waiting_for_question S = Some True")
    case False
    then have "snd (snd (handle_message E U S tr)) = tr @ [ReplyText NEED_START]"
      by (simp add: handle_message_def reply_and_return_def Let_def)
    moreover have "list_all quiet [ReplyText NEED_START]"
      by (simp add: quiet_def)
    ultimately show ?thesis using quiet_calls_no_update by blast
  next
    case True
    show ?thesis
    proof (cases "accept_question E U S tr")
      case (Inl ended)
      obtain out S' tr' where e: "ended = (out, S', tr')" by (cases ended)
      from accept_question_ended [OF Inl [unfolded e]]
      obtain new where new: "tr' = tr @ new" "list_all (\<lambda>e. quota_call e \<or> is_create_project e) new"
        by blast
      then have "list_all quiet new"
        using quota_call_quiet by (auto simp: list_all_iff)
      moreover have "snd (snd (handle_message E U S tr)) = tr @ new"
        using True Inl e new(1) by (simp add: handle_message_def)
      ultimately show ?thesis using quiet_calls_no_update by blast
    next
      case (Inr go)
      obtain pid S2 tr2 where go: "go = (pid, S2, tr2)" by (cases go)
      let ?q = "message_text U"
      from accept_question_proceeds [OF Inr [unfolded go]]
      obtain g uid where g: "tr2 = tr @ g @ [CreateProject uid ?q]" "list_all quota_call g"
        and pid: "project_result E = Some pid"
        by blast
      have gq: "list_all quiet g"
        using g(2) quota_call_quiet by (auto simp: list_all_iff)
      have run: "handle_message E U S tr = stream_reply E ?q pid S2 tr2"
        using True Inr go by (simp add: handle_message_def)
      show ?thesis
      proof (cases "answer E ?q pid tr2")
        case (Err x tr3)
        from answer_raises [OF Err]
        obtain new where new: "tr3 = tr2 @ ChatStream pid ?q # new" "list_all (loop_call ?q) new"
          by blast
        let ?all = "g @ CreateProject uid ?q # ChatStream pid ?q # new @ [ReplyText GENERIC_FAILURE]"
        have t: "snd (snd (handle_message E U S tr)) = tr @ ?all"
          using run Err new(1) g(1) by (simp add: stream_reply_def reply_and_return_def Let_def)
        have nq: "list_all quiet (new @ [ReplyText GENERIC_FAILURE])"
          using new(2) loop_call_quiet by (auto simp: list_all_iff quiet_def)
        have "created_before_stream ?all"
          using gq by (rule created_before_stream_append)
        moreover have "filter is_update_project ?all = []"
          using quiet_no_update [OF gq] quiet_no_update [OF nq] by simp
        moreover have "\<And>p ms. UpdateProjectMessages p ms \<notin> set ?all"
          using quiet_not_member [OF gq] quiet_not_member [OF nq] by auto
        ultimately show ?thesis using t
          by (auto simp: update_last_only_def)
      next
        case (Ok ls tr3)
        from answer_returns [OF Ok] obtain new where ends: "\<not> stream_breaks E"
          and nl: "list_all (loop_call ?q) new"
          and shape: "tr3 = tr2 @ ChatStream pid ?q # new
             \<or> (\<exists>t. tr3 = tr2 @ ChatStream pid ?q # new
                          @ [EditText t, UpdateProjectMessages pid (special_entries (stream_events E) @ [assistant t])]
                    \<and> answer_sent E ?q (tr2 @ [ChatStream pid ?q]) new)"
          by blast
        have nq: "list_all quiet new"
          using nl loop_call_quiet by (auto simp: list_all_iff)
        have t: "snd (snd (handle_message E U S tr)) = tr3"
          using run Ok by (simp add: stream_reply_def)
        from shape show ?thesis
        proof
          assume "tr3 = tr2 @ ChatStream pid ?q # new"
          then have t3: "tr3 = tr @ (g @ CreateProject uid ?q # ChatStream pid ?q # new)"
            using g(1) by simp
          have "created_before_stream (g @ CreateProject uid ?q # ChatStream pid ?q # new)"
            using gq by (rule created_before_stream_append)
          moreover have "filter is_update_project (g @ CreateProject uid ?q # ChatStream pid ?q # new) = []"
            using quiet_no_update [OF gq] quiet_no_update [OF nq] by simp
          moreover have "\<And>p ms. UpdateProjectMessages p ms \<notin> set (g @ CreateProject uid ?q # ChatStream pid ?q # new)"
            using quiet_not_member [OF gq] quiet_not_member [OF nq] by auto
          ultimately show ?thesis using t t3
            by (auto simp: update_last_only_def)
        next
          assume "\<exists>t. tr3 = tr2 @ ChatStream pid ?q # new
                          @ [EditText t, UpdateProjectMessages pid (special_entries (stream_events E) @ [assistant t])]
                    \<and> answer_sent E ?q (tr2 @ [ChatStream pid ?q]) new"
          then obtain t3 where t3: "tr3 = tr2 @ ChatStream pid ?q # new
                          @ [EditText t3, UpdateProjectMessages pid (special_entries (stream_events E) @ [assistant t3])]"
            and sent: "answer_sent E ?q (tr2 @ [ChatStream pid ?q]) new"
            by blast
          let ?pre = "g @ CreateProject uid ?q # ChatStream pid ?q # new"
          let ?ms = "special_entries (stream_events E) @ [assistant t3]"
          let ?all = "?pre @ [EditText t3, UpdateProjectMessages pid ?ms]"
          have all: "tr3 = tr @ ?all"
            using t3 g(1) by simp
          have cb: "created_before_stream ?all"
            using created_before_stream_append [OF gq, of uid ?q
                    "ChatStream pid ?q # new @ [EditText t3, UpdateProjectMessages pid ?ms]"]
            by simp
          have one: "filter is_update_project ?all = [UpdateProjectMessages pid ?ms]"
            using quiet_no_update [OF gq] quiet_no_update [OF nq] by simp
          have sent': "answer_sent E ?q tr ?pre"
          proof -
            have "answer_sent E ?q tr ((g @ [CreateProject uid ?q, ChatStream pid ?q]) @ new)"
              using sent g(1) answer_sent_append [of E ?q tr "g @ [CreateProject uid ?q, ChatStream pid ?q]" new]
              by simp
            then show ?thesis by simp
          qed
          have only: "\<And>p ms. UpdateProjectMessages p ms \<in> set ?all \<Longrightarrow> p = pid \<and> ms = ?ms"
            using quiet_not_member [OF gq] quiet_not_member [OF nq] by auto
          have "update_last_only E U tr ?all"
            unfolding update_last_only_def
          proof (intro allI impI)
            fix p ms
            assume "UpdateProjectMessages p ms \<in> set ?all"
            then have "p = pid" "ms = ?ms" using only by blast+
            with pid ends sent' show "\<exists>pre t. ?all = pre @ [EditText t, UpdateProjectMessages p ms]
               \<and> ms = special_entries (stream_events E) @ [assistant t]
               \<and> project_result E = Some p \<and> \<not> stream_breaks E
               \<and> answer_sent E ?q tr pre"
              by blast
          qed
          with cb one t all show ?thesis
            by (intro exI [of _ ?all]) simp
        qed
      qed
    qed
  qed
  then obtain new where new: "snd (snd (handle_message E U S tr)) = tr @ new"
    "created_before_stream new" "length (filter is_update_project new) \<le> 1"
    "update_last_only E U tr new"
    by blast
  obtain out S' tr' where r: "handle_message E U S tr = (out, S', tr')"
    by (cases "handle_message E U S tr")
  with new(1) have "tr' = tr @ new" by simp
  then have "issued tr tr' = new" by (simp add: issued_def)
  with new r \<open>tr' = tr @ new\<close> show ?thesis
    by (simp add: update_last_only_def)
qed

theorem C4_project_created_first_updated_once_witness:
  "UpdateProjectMessages [0x70]
      [assistant (header [0x71] @ [0x61] @ LINE_BREAK @ [0x62] @ [0x61] @ LINE_BREAK @ [0x62])]
     \<in> set (issued [] (snd (snd (handle_message E_one_fragment U_msg S_waiting []))))
   \<and> (\<exists>pre t. issued [] (snd (snd (handle_message E_one_fragment U_msg S_waiting [])))
               = pre @ [EditText t, UpdateProjectMessages [0x70]
                   [assistant (header [0x71] @ [0x61] @ LINE_BREAK @ [0x62] @ [0x61] @ LINE_BREAK @ [0x62])]]
        \<and> [assistant (header [0x71] @ [0x61] @ LINE_BREAK @ [0x62] @ [0x61] @ LINE_BREAK @ [0x62])]
            = special_entries (stream_events E_one_fragment) @ [assistant t]
        \<and> project_result E_one_fragment = Some [0x70] \<and> \<not> stream_breaks E_one_fragment
        \<and> answer_sent E_one_fragment (message_text U_msg) [] pre)"
proof -
  let ?ms = "[assistant (header [0x71] @ [0x61] @ LINE_BREAK @ [0x62] @ [0x61] @ LINE_BREAK @ [0x62])]"
  have m: "UpdateProjectMessages [0x70] ?ms
             \<in> set (issued [] (snd (snd (handle_message E_one_fragment U_msg S_waiting []))))"
    by (simp add: handle_one issued_def)
  from C4_project_created_first_updated_once [where E = E_one_fragment and U = U_msg and S = S_waiting and tr = "[]"]
  have "\<forall>p ms. UpdateProjectMessages p ms
             \<in> set (issued [] (snd (snd (handle_message E_one_fragment U_msg S_waiting [])))) \<longrightarrow>
         (\<exists>pre t. issued [] (snd (snd (handle_message E_one_fragment U_msg S_waiting [])))
                     = pre @ [EditText t, UpdateProjectMessages p ms]
            \<and> ms = special_entries (stream_events E_one_fragment) @ [assistant t]
            \<and> project_result E_one_fragment = Some p \<and> \<not> stream_breaks E_one_fragment
            \<and> answer_sent E_one_fragment (message_text U_msg) [] pre)"
    by (simp add: issued_def split: prod.splits)
  with m show ?thesis by blast
qed

subsection \<open>C5: image-formatted fragments\<close>

text \<open>
  C5 (for every fragment that starts with \<open>"!["\<close>, contains \<open>"]("\<close> and ends with \<open>")"\<close>, the
  photo is sent with the substring between \<open>"]("\<close> and the trailing \<open>")"\<close> as its URL) does
  not hold on the code when \<open>"]("\<close> occurs more than once. Line 125 splits the content at
  every \<open>"]("\<close>, not only at the first, and takes the second piece less its last
  character. For the fragment \<open>"![a](b](c)"\<close> the pieces are \<open>"![a"\<close>, \<open>"b"\<close> and \<open>"c)"\<close>,
  and the photo is sent with the empty URL, where the text between the first \<open>"]("\<close> and
  the trailing \<open>")"\<close> is \<open>"b](c"\<close> (and \<open>"c"\<close> after the last \<open>"]("\<close>). The code evaluated at
  this fragment:
\<close>

theorem C5_two_separators_empty_url:
  "is_image two_separators \<and> count_str two_separators IMG_MID = 2
   \<and> on_event E_base [0x71] (delta two_separators) initial_loop_state [] =
       Ok (initial_loop_state\<lparr>messages := [assistant two_separators]\<rparr>) [ReplyPhoto []]
   \<and> two_separators = IMG_OPEN @ [0x61] @ IMG_MID @ [0x62, 0x5D, 0x28, 0x63] @ IMG_CLOSE
   \<and> two_separators = IMG_OPEN @ [0x61, 0x5D, 0x28, 0x62] @ IMG_MID @ [0x63] @ IMG_CLOSE"
  by (simp add: on_event_def delta_def is_image_def endswith_def two_separators_def
        IMG_OPEN_def IMG_MID_def IMG_CLOSE_def E_base_def initial_loop_state_def Let_def)

text \<open>
  For the fragments in which \<open>"]("\<close> occurs exactly once the claim holds: the loop issues
  exactly one call, the photo send whose URL is the text between \<open>"]("\<close> and the closing
  \<open>")"\<close>; an assistant entry with the original content is then appended to the transcript,
  and the fragment never reaches \<open>content_buffer\<close> or \<open>text_buffer\<close>. (As for any send, if
  this one raises the loop is left with the exception.)
\<close>

lemma image_fragment_single_separator:
  assumes "is_image c" and "count_str c IMG_MID = 1"
  shows "\<exists>pre url. c = pre @ IMG_MID @ url @ IMG_CLOSE
           \<and> on_event E q (delta c) ls tr =
               (if raises E (tr @ [ReplyPhoto url])
                then Err ExternalError (tr @ [ReplyPhoto url])
                else Ok (ls\<lparr>messages := messages ls @ [assistant c]\<rparr>) (tr @ [ReplyPhoto url]))"
proof -
  from image_single_separator_shape [OF assms]
  obtain alt url where c: "c = IMG_OPEN @ alt @ IMG_MID @ url @ IMG_CLOSE"
    and alt: "\<not> contains alt IMG_MID" and url: "\<not> contains url IMG_MID"
    by blast
  have "split_str c IMG_MID = [IMG_OPEN @ alt, url @ IMG_CLOSE]"
    using c alt url split_str_image by simp
  moreover have "butlast (url @ IMG_CLOSE) = url"
    by (simp add: IMG_CLOSE_def butlast_append)
  ultimately have "on_event E q (delta c) ls tr =
               (if raises E (tr @ [ReplyPhoto url])
                then Err ExternalError (tr @ [ReplyPhoto url])
                else Ok (ls\<lparr>messages := messages ls @ [assistant c]\<rparr>) (tr @ [ReplyPhoto url]))"
    using assms(1) by (simp add: on_event_def delta_def Let_def)
  moreover have "c = (IMG_OPEN @ alt) @ IMG_MID @ url @ IMG_CLOSE"
    using c by simp
  ultimately show ?thesis by blast
qed

lemma image_fragment_single_separator_example:
  "is_image one_separator \<and> count_str one_separator IMG_MID = 1
   \<and> on_event E_base [0x71] (delta one_separator) initial_loop_state [] =
       Ok (initial_loop_state\<lparr>messages := [assistant one_separator]\<rparr>) [ReplyPhoto [0x75]]"
  by (simp add: on_event_def delta_def is_image_def endswith_def one_separator_def
        IMG_OPEN_def IMG_MID_def IMG_CLOSE_def E_base_def initial_loop_state_def Let_def)

subsection \<open>C6: the number of edits\<close>

text \<open>
  C6, as amended. For every stream with no image-formatted and no status-marker fragment,
  whatever raises or not, the streaming part issues at most \<open>ceil(total_fragment_length /
  30)\<close> edit operations (the mid-stream edits and the final flush together) and at most one
  send; it issues exactly one send, the initial one, when the stream is opened and has at
  least one fragment. The number of edits is bounded by, not equal to, that ceiling: an
  edit is issued once at least 30 characters are buffered, however many they are, and
  never for the first fragment.
\<close>

theorem C6_edits_at_most_ceiling:
  assumes "list_all plain (fragments (stream_events E))"
  shows "edits (issued tr (trace_of (answer E q pid tr)))
           \<le> (total_fragment_length (stream_events E) + 29) div 30
       \<and> replies (issued tr (trace_of (answer E q pid tr))) \<le> 1
       \<and> (fragments (stream_events E) \<noteq> [] \<and> \<not> raises E (tr @ [ChatStream pid q])
            \<longrightarrow> replies (issued tr (trace_of (answer E q pid tr))) = 1)"
proof -
  obtain new where new: "trace_of (answer E q pid tr) = tr @ new"
    using answer_extends by blast
  then have iss: "issued tr (trace_of (answer E q pid tr)) = new"
    by (simp add: issued_def)
  from answer_edits [of E q pid tr] new
  have "30 * edits new \<le> total_fragment_length (stream_events E) + 29" by simp
  then have "edits new \<le> (total_fragment_length (stream_events E) + 29) div 30"
    by arith
  moreover from answer_replies [of E q pid tr] assms new
  have most: "replies new \<le> 1" by (simp add: list_all_iff)
  moreover have "replies new = 1"
    if "fragments (stream_events E) \<noteq> []" and "\<not> raises E (tr @ [ChatStream pid q])"
    using answer_first_reply [OF assms that] new most by simp
  ultimately show ?thesis by (simp add: iss)
qed

theorem C6_edits_at_most_ceiling_witness:
  "list_all plain (fragments (stream_events E_two_fragments))
   \<and> fragments (stream_events E_two_fragments) \<noteq> []
   \<and> \<not> raises E_two_fragments ([] @ [ChatStream [0x70] [0x71]])
   \<and> edits (issued [] (trace_of (answer E_two_fragments [0x71] [0x70] [])))
       \<le> (total_fragment_length (stream_events E_two_fragments) + 29) div 30
   \<and> replies (issued [] (trace_of (answer E_two_fragments [0x71] [0x70] []))) = 1"
proof -
  have p: "list_all plain (fragments (stream_events E_two_fragments))"
    by (simp add: fragments_def E_two_fragments_def delta_def plain_def is_image_def is_status_def
          string_defs replicate_numeral_Cons)
  have f: "fragments (stream_events E_two_fragments) \<noteq> []"
    by (simp add: fragments_def E_two_fragments_def delta_def)
  have r: "\<not> raises E_two_fragments ([] @ [ChatStream [0x70] [0x71]])"
    by (simp add: E_two_fragments_def E_base_def)
  from C6_edits_at_most_ceiling [OF p, where tr = "[]" and q = "[0x71]" and pid = "[0x70]"] p f r
  show ?thesis by blast
qed

text \<open>
  The claim as stated fails for the stream with a single plain fragment of 90 characters:
  \<open>ceil(90 / 30) = 3\<close>, but the streaming part issues one send (the whole fragment with the
  header) and one edit (the final flush).
\<close>

theorem C6_counterexample_long_fragment:
  "list_all plain (fragments (stream_events E_long_fragment))
   \<and> edits (issued [] (trace_of (answer E_long_fragment [0x71] [0x70] []))) = 1
   \<and> replies (issued [] (trace_of (answer E_long_fragment [0x71] [0x70] []))) = 1
   \<and> total_fragment_length (stream_events E_long_fragment) = 90
   \<and> (90 + 29) div 30 = (3::nat)"
proof -
  have "list_all plain (fragments (stream_events E_long_fragment))"
    by (simp add: fragments_def E_long_fragment_def delta_def plain_def is_image_def is_status_def
          string_defs replicate_numeral_Cons)
  moreover have "edits (issued [] (trace_of (answer E_long_fragment [0x71] [0x70] []))) = 1"
    and "replies (issued [] (trace_of (answer E_long_fragment [0x71] [0x70] []))) = 1"
    by (simp_all add: answer_long issued_def)
  moreover have "total_fragment_length (stream_events E_long_fragment) = 90"
    by (simp add: total_fragment_length_def fragments_def E_long_fragment_def delta_def)
  ultimately show ?thesis by simp
qed

subsection \<open>C7: status-marker fragments\<close>

text \<open>
  C7, as amended. Wherever a message-delta fragment whose content begins with the status
  marker stands in the stream, the loop, on reaching it, immediately issues exactly one
  call: a text message of its own that carries the marker, a fixed text, and not the
  content of the fragment. When this send returns, the content of the fragment is appended
  to the transcript as an assistant entry, and the loop goes on with the rest of the
  stream with \<open>content_buffer\<close>, \<open>text_buffer\<close> and the message handle as they were (if the
  send raises, the loop is left with the exception, as for every send). So in a run of
  the loop that returns, the transcript holds an assistant entry with the content of the
  fragment, and \<open>content_buffer\<close> and \<open>text_buffer\<close> end as they end for the stream without
  this fragment: it contributes no character to them.
\<close>

theorem C7_status_fragment_marker_sent_and_recorded:
  assumes "is_status c"
  shows "consume E q (pre @ delta c # post) ls tr =
           (case consume E q pre ls tr of
              Err x tr1 \<Rightarrow> Err x tr1
            | Ok ls1 tr1 \<Rightarrow>
                if raises E (tr1 @ [ReplyText STATUS_MARKER])
                then Err ExternalError (tr1 @ [ReplyText STATUS_MARKER])
                else consume E q post (ls1\<lparr>messages := messages ls1 @ [assistant c]\<rparr>)
                       (tr1 @ [ReplyText STATUS_MARKER]))
       \<and> (consume E q (pre @ delta c # post) ls tr = Ok ls' tr' \<longrightarrow>
          consume E2 q (pre @ post) ls tr2 = Ok ls2 tr2' \<longrightarrow>
            content_buffer ls' = content_buffer ls2 \<and> text_buffer ls' = text_buffer ls2
            \<and> messages ls' = messages ls @ special_entries (pre @ delta c # post)
            \<and> assistant c \<in> set (messages ls'))"
proof -
  have eq: "consume E q (pre @ delta c # post) ls tr =
           (case consume E q pre ls tr of
              Err x tr1 \<Rightarrow> Err x tr1
            | Ok ls1 tr1 \<Rightarrow>
                if raises E (tr1 @ [ReplyText STATUS_MARKER])
                then Err ExternalError (tr1 @ [ReplyText STATUS_MARKER])
                else consume E q post (ls1\<lparr>messages := messages ls1 @ [assistant c]\<rparr>)
                       (tr1 @ [ReplyText STATUS_MARKER]))"
    by (simp add: consume_append on_event_status [OF assms] split: res.splits)
  have frame: "content_buffer ls' = content_buffer ls2 \<and> text_buffer ls' = text_buffer ls2
            \<and> messages ls' = messages ls @ special_entries (pre @ delta c # post)
            \<and> assistant c \<in> set (messages ls')"
    if a: "consume E q (pre @ delta c # post) ls tr = Ok ls' tr'"
      and b: "consume E2 q (pre @ post) ls tr2 = Ok ls2 tr2'"
  proof -
    from a eq obtain l1 t1 where p1: "consume E q pre ls tr = Ok l1 t1"
      and r1: "consume E q post (l1\<lparr>messages := messages l1 @ [assistant c]\<rparr>)
                 (t1 @ [ReplyText STATUS_MARKER]) = Ok ls' tr'"
      by (auto split: res.splits if_splits)
    from b obtain l2 t2 where p2: "consume E2 q pre ls tr2 = Ok l2 t2"
      and r2: "consume E2 q post l2 t2 = Ok ls2 tr2'"
      by (auto simp: consume_append split: res.splits)
    from consume_buffers [OF p1 p2] have same: "content_buffer l1 = content_buffer l2"
      "text_buffer l1 = text_buffer l2" "message l1 = message l2" by simp_all
    from consume_buffers [OF r1 r2] same
    have "content_buffer ls' = content_buffer ls2 \<and> text_buffer ls' = text_buffer ls2" by simp
    with consume_messages [OF a] special_entries_status [OF assms, of pre post]
    show ?thesis by simp
  qed
  from eq frame show ?thesis by blast
qed

theorem C7_status_fragment_marker_sent_and_recorded_witness:
  "is_status (STATUS_MARKER @ [0x21])
   \<and> consume E_base [0x71] ([delta [0x61]] @ delta (STATUS_MARKER @ [0x21]) # [delta [0x62]])
       initial_loop_state [] =
     Ok \<lparr>messages = [assistant (STATUS_MARKER @ [0x21])], text_buffer = header [0x71] @ [0x61],
         message = Some (), content_buffer = [0x61, 0x62]\<rparr>
        [ReplyText (header [0x71] @ [0x61]), ReplyText STATUS_MARKER]
   \<and> consume E_base [0x71] ([delta [0x61]] @ [delta [0x62]]) initial_loop_state [] =
     Ok \<lparr>messages = [], text_buffer = header [0x71] @ [0x61],
         message = Some (), content_buffer = [0x61, 0x62]\<rparr>
        [ReplyText (header [0x71] @ [0x61])]
   \<and> special_entries ([delta [0x61]] @ delta (STATUS_MARKER @ [0x21]) # [delta [0x62]])
       = [assistant (STATUS_MARKER @ [0x21])]"
proof -
  let ?ls' = "\<lparr>messages = [assistant (STATUS_MARKER @ [0x21])], text_buffer = header [0x71] @ [0x61],
         message = Some (), content_buffer = [0x61, 0x62]\<rparr>"
  let ?ls2 = "\<lparr>messages = [], text_buffer = header [0x71] @ [0x61],
         message = Some (), content_buffer = [0x61, 0x62]\<rparr>"
  have s: "is_status (STATUS_MARKER @ [0x21])"
    by (simp add: is_status_def)
  from C7_status_fragment_marker_sent_and_recorded [OF s, where E = E_base and ?E2.0 = E_base
      and q = "[0x71]" and pre = "[delta [0x61]]"
      and post = "[delta [0x62]]" and ls = initial_loop_state and tr = "[]" and ?tr2.0 = "[]"
      and ls' = ?ls' and ?ls2.0 = ?ls2
      and tr' = "[ReplyText (header [0x71] @ [0x61]), ReplyText STATUS_MARKER]"
      and tr2' = "[ReplyText (header [0x71] @ [0x61])]"]
    consume_status_run consume_plain_run
  have "messages ?ls' = messages initial_loop_state
          @ special_entries ([delta [0x61]] @ delta (STATUS_MARKER @ [0x21]) # [delta [0x62]])"
    by blast
  then have "special_entries ([delta [0x61]] @ delta (STATUS_MARKER @ [0x21]) # [delta [0x62]])
       = [assistant (STATUS_MARKER @ [0x21])]"
    by (simp add: initial_loop_state_def)
  with s consume_status_run consume_plain_run show ?thesis by simp
qed

text \<open>
  The claim as stated fails for the fragment made of the marker followed by \<open>"!"\<close>: the
  fragment is not what is sent. Line 129 sends the marker, a literal of the program, and
  the \<open>"!"\<close> reaches the chat in no call of the run (it is only recorded in the
  transcript).
\<close>

theorem C7_counterexample_marker_sent_not_fragment:
  "is_status (STATUS_MARKER @ [0x21])
   \<and> fragments (stream_events E_status_fragment) = [STATUS_MARKER @ [0x21]]
   \<and> handle_message E_status_fragment U_msg S_waiting [] =
       (Returned, S_waiting\<lparr>waiting_for_question := Some False\<rparr>,
        quota_calls @ [ChatStream [0x70] [0x71], ReplyText STATUS_MARKER])
   \<and> ReplyText (STATUS_MARKER @ [0x21])
       \<notin> set (quota_calls @ [ChatStream [0x70] [0x71], ReplyText STATUS_MARKER])"
proof -
  have "handle_message E_status_fragment U_msg S_waiting [] =
       (Returned, S_waiting\<lparr>waiting_for_question := Some False\<rparr>,
        quota_calls @ [ChatStream [0x70] [0x71], ReplyText STATUS_MARKER])"
    using accept_status answer_status [of quota_calls]
    by (simp add: handle_message_def stream_reply_def S_waiting_def U_msg_def)
  moreover have "ReplyText (STATUS_MARKER @ [0x21])
       \<notin> set (quota_calls @ [ChatStream [0x70] [0x71], ReplyText STATUS_MARKER])"
    by (simp add: quota_calls_def)
  moreover have "is_status (STATUS_MARKER @ [0x21])" by (simp add: is_status_def)
  moreover have "fragments (stream_events E_status_fragment) = [STATUS_MARKER @ [0x21]]"
    by (simp add: fragments_def E_status_fragment_def delta_def)
  ultimately show ?thesis by simp
qed

subsection \<open>C8: a failure while streaming\<close>

text \<open>
  C8. If, after the project is created, an exception leaves the body of the outer \<open>try\<close>
  (opening the stream raises, the stream raises between or after its events, or a send
  raises; a raising mid-stream edit is caught on the spot and is no such failure), then
  the handler issues the generic failure reply as its last call and ends; among all the
  calls of this run the generic failure reply occurs exactly once, and no
  \<open>update_project_messages\<close> call occurs.
\<close>

theorem C8_stream_failure_one_generic_reply:
  assumes "waiting_for_question S = Some True"
      and "accept_question E U S tr = Inr (pid, S2, tr2)"
      and "answer E (message_text U) pid tr2 = Err x tr3"
  shows "case handle_message E U S tr of (out, S', tr') \<Rightarrow>
            tr' = tr3 @ [ReplyText GENERIC_FAILURE]
          \<and> out = (if raises E tr' then Raised ExternalError else Returned)
          \<and> count_list (issued tr tr') (ReplyText GENERIC_FAILURE) = 1
          \<and> \<not> list_ex is_update_project (issued tr tr')"
proof -
  from accept_question_proceeds [OF assms(2)]
  obtain g uid where g: "tr2 = tr @ g @ [CreateProject uid (message_text U)]" "list_all quota_call g"
    by blast
  from answer_raises [OF assms(3)]
  obtain new where new: "tr3 = tr2 @ ChatStream pid (message_text U) # new"
    "list_all (loop_call (message_text U)) new"
    by blast
  have run: "handle_message E U S tr =
               (if raises E (tr3 @ [ReplyText GENERIC_FAILURE]) then Raised ExternalError else Returned,
                S2, tr3 @ [ReplyText GENERIC_FAILURE])"
    using assms by (simp add: handle_message_def stream_reply_def reply_and_return_def Let_def)
  have iss: "issued tr (tr3 @ [ReplyText GENERIC_FAILURE])
             = g @ CreateProject uid (message_text U) # ChatStream pid (message_text U) # new
                 @ [ReplyText GENERIC_FAILURE]"
    using g(1) new(1) by (simp add: issued_def)
  have "count_list g (ReplyText GENERIC_FAILURE) = 0"
    using g(2) generic_failure_not_quota_call by (rule count_list_none)
  moreover have "count_list new (ReplyText GENERIC_FAILURE) = 0"
    using new(2) generic_failure_not_loop_call by (rule count_list_none)
  ultimately have one: "count_list (issued tr (tr3 @ [ReplyText GENERIC_FAILURE])) (ReplyText GENERIC_FAILURE) = 1"
    by (simp add: iss)
  have "\<not> list_ex is_update_project (issued tr (tr3 @ [ReplyText GENERIC_FAILURE]))"
    using quota_call_no_update [OF g(2)] loop_call_no_update [OF new(2)] by (simp add: iss)
  with run one show ?thesis by simp
qed

theorem C8_stream_failure_one_generic_reply_witness:
  "waiting_for_question S_waiting = Some True
   \<and> accept_question E_broken_stream U_msg S_waiting [] =
       Inr ([0x70], S_waiting\<lparr>waiting_for_question := Some False\<rparr>, quota_calls)
   \<and> answer E_broken_stream (message_text U_msg) [0x70] quota_calls =
       Err ExternalError (quota_calls @ [ChatStream [0x70] [0x71], ReplyText (header [0x71] @ [0x61])])
   \<and> (case handle_message E_broken_stream U_msg S_waiting [] of (out, S', tr') \<Rightarrow>
          tr' = quota_calls @ [ChatStream [0x70] [0x71], ReplyText (header [0x71] @ [0x61]),
                              ReplyText GENERIC_FAILURE]
        \<and> out = Returned
        \<and> count_list (issued [] tr') (ReplyText GENERIC_FAILURE) = 1
        \<and> \<not> list_ex is_update_project (issued [] tr'))"
proof -
  have w: "waiting_for_question S_waiting = Some True"
    by (simp add: S_waiting_def)
  have a: "answer E_broken_stream (message_text U_msg) [0x70] quota_calls =
       Err ExternalError (quota_calls @ [ChatStream [0x70] [0x71], ReplyText (header [0x71] @ [0x61])])"
    using answer_broken [of quota_calls] by (simp add: U_msg_def)
  from C8_stream_failure_one_generic_reply [OF w accept_broken a]
  have "case handle_message E_broken_stream U_msg S_waiting [] of (out, S', tr') \<Rightarrow>
          tr' = quota_calls @ [ChatStream [0x70] [0x71], ReplyText (header [0x71] @ [0x61]),
                              ReplyText GENERIC_FAILURE]
        \<and> out = Returned
        \<and> count_list (issued [] tr') (ReplyText GENERIC_FAILURE) = 1
        \<and> \<not> list_ex is_update_project (issued [] tr')"
    by (auto simp: E_broken_stream_def E_base_def split: prod.splits)
  with w accept_broken a show ?thesis by simp
qed

subsection \<open>C9: user resolution fails\<close>

text \<open>
  C9 (when user resolution fails, the flow aborts with a generic system-error reply and no
  partial session state is established) does not hold on the code. \<open>initialize_user_data\<close>
  logs the failure and returns without telling its caller, leaving the session as it was
  (lemma \<open>initialize_unresolved\<close>), and no caller checks. On a first contact \<open>/start\<close> then
  raises \<open>KeyError\<close> at \<open>context.user_data['daily_count']\<close>, and the user gets no reply at
  all; with a session left by an earlier refresh, \<open>handle_message\<close> goes on with the stale
  quota and user id, creates a project and opens the chat stream. The code evaluated at
  both inputs:
\<close>

theorem C9_unresolved_user_no_error_reply:
  "start E_no_user U_msg S_fresh [] =
     (Raised KeyError, S_fresh, [GetOrCreateUser [0x31] [0x41, 0x20, 0x42]])
   \<and> handle_message E_no_user U_msg S_waiting [] =
     (Returned, S_waiting\<lparr>waiting_for_question := Some False\<rparr>,
      [GetOrCreateUser [0x31] [0x41, 0x20, 0x42], CreateProject [0x75] [0x71],
       ChatStream [0x70] [0x71]])"
  by (simp add: start_def handle_message_def accept_question_def display_name_def
        initialize_user_data_def stream_reply_def answer_def finish_def initial_loop_state_def
        reply_and_return_def fixture_defs SPACE_def Let_def)

subsection \<open>C10: events other than message deltas are ignored\<close>

text \<open>
  C10. An event whose type is not \<open>CONVERSATION_MESSAGE_DELTA\<close> (the chat-completed event
  included) leaves the loop as it found it: no call is issued (the history is unchanged)
  and the transcript, \<open>content_buffer\<close>, \<open>text_buffer\<close> and the message handle are
  unchanged. So the loop runs on a stream exactly as on the same stream with all such
  events removed. The session is out of reach of the whole streaming part: it is the same
  after it as before.
\<close>

theorem C10_other_events_ignored:
  "(event_type ev \<noteq> CONVERSATION_MESSAGE_DELTA \<longrightarrow> on_event E q ev ls tr = Ok ls tr)
   \<and> consume E q (filter (\<lambda>ev. event_type ev = CONVERSATION_MESSAGE_DELTA) evs) ls tr
       = consume E q evs ls tr
   \<and> fst (snd (stream_reply E q pid S tr)) = S"
  by (simp add: on_event_other consume_filter_delta stream_reply_def reply_and_return_def Let_def
           split: res.splits)

theorem C10_other_events_ignored_witness:
  "event_type chat_completed \<noteq> CONVERSATION_MESSAGE_DELTA
   \<and> on_event E_base [0x71] chat_completed initial_loop_state [] = Ok initial_loop_state []"
  using C10_other_events_ignored
          [where ev = chat_completed and E = E_base and q = "[0x71]" and ls = initial_loop_state
             and tr = "[]"]
  by (simp add: chat_completed_def)

end
